theory Spec2Isabelle
  imports Complex_Main "HOL-Library.Log_Nat" "HOL-Library.Multiset"
begin

section \<open>Music Bingo: the ticket generator of \<^verbatim>\<open>musicbingo/generator.py\<close>\<close>

subsection \<open>Data model\<close>

text \<open>
  A \<^verbatim>\<open>Song\<close> as the generator reads it: the stable reference identity \<^verbatim>\<open>ref_id\<close>
  and the prime \<^verbatim>\<open>song_id\<close> that \<^verbatim>\<open>assign_song_ids\<close> gives it. The descriptive
  fields (title, artist, album, start time) are read by the renderers only.
\<close>

record song =
  ref_id :: nat
  song_id :: nat

text \<open>
  \<^verbatim>\<open>BingoTicket\<close>: \<^verbatim>\<open>card_id\<close> (the ticket key), \<^verbatim>\<open>card_tracks\<close> and the optional
  \<^verbatim>\<open>ticket_number\<close>. A fresh ticket is \<^verbatim>\<open>BingoTicket(options)\<close>: key 0, no tracks,
  no number.
\<close>

record BingoTicket =
  card_id :: nat
  card_tracks :: "song list"
  ticket_number :: "nat option"

definition new_ticket :: BingoTicket where
  "new_ticket = \<lparr>card_id = 0, card_tracks = [], ticket_number = None\<rparr>"

text \<open>Every \<^verbatim>\<open>raise\<close> of the generator, and the exceptions of the built-ins it calls.\<close>

datatype value_error =
    SongListEmpty
  | QuizTooManySongs nat
  | InvalidMode
  | GameIdEmpty
  | TooFewSongs int
  | TooManySongs nat
  | TooFewTickets
  | TooManyCards int
  | TicketNeverWins "nat set"
  | RandBelowNotPositive

datatype error =
    ValueError value_error
  | IndexError
  | KeyError
  | ZeroDivisionError
  | OverflowError

subsection \<open>Python floats\<close>

text \<open>
  Python's \<^verbatim>\<open>float\<close> is the IEEE 754 binary64 format. A finite double is modelled by
  the rational number it denotes, and every operation rounds its exact result to the
  nearest double, ties to the even significand: \<open>fl\<close>. The exponent of the last place
  is \<open>ilog2 \<bar>x\<bar> - 52\<close>, and \<open>-1074\<close> in the subnormal range. Results beyond the double
  range are checked where Python raises (\<^verbatim>\<open>int\<close> to \<^verbatim>\<open>float\<close>, \<^verbatim>\<open>int / int\<close>).
\<close>

definition pow2 :: "int \<Rightarrow> rat" where
  "pow2 k = (if 0 \<le> k then 2 ^ nat k else 1 / 2 ^ nat (- k))"

definition ilog2 :: "rat \<Rightarrow> int" where
  "ilog2 x = (if 1 \<le> x then bitlen \<lfloor>x\<rfloor> - 1 else - bitlen (\<lceil>1 / x\<rceil> - 1))"

definition round_half_even :: "rat \<Rightarrow> int" where
  "round_half_even x =
     (let f = \<lfloor>x\<rfloor>; r = x - of_int f
      in if r < 1 / 2 then f else if 1 / 2 < r then f + 1 else if even f then f else f + 1)"

definition fl :: "rat \<Rightarrow> rat" where
  "fl x = (if x = 0 then 0
           else let e = max (ilog2 \<bar>x\<bar> - 52) (- 1074)
                in of_int (round_half_even (x / pow2 e)) * pow2 e)"

definition trunc :: "rat \<Rightarrow> int" where
  "trunc x = (if 0 \<le> x then \<lfloor>x\<rfloor> else \<lceil>x\<rceil>)"


text \<open>\<^verbatim>\<open>float(n)\<close>, and the implicit conversion of an \<^verbatim>\<open>int\<close> operand.\<close>

definition float_of_int :: "int \<Rightarrow> error + rat" where
  "float_of_int n =
     (let x = fl (of_int n) in if 2 ^ 1024 \<le> \<bar>x\<bar> then Inl OverflowError else Inr x)"

text \<open>\<^verbatim>\<open>a / b\<close> on two \<^verbatim>\<open>int\<close>s: the correctly rounded quotient.\<close>

definition int_truediv :: "int \<Rightarrow> int \<Rightarrow> error + rat" where
  "int_truediv a b =
     (if b = 0 then Inl ZeroDivisionError
      else let q = fl (of_int a / of_int b)
           in if 2 ^ 1024 \<le> \<bar>q\<bar> then Inl OverflowError else Inr q)"

subsection \<open>Combinatorics validator\<close>

text \<open>
  \<^verbatim>\<open>combinations\<close>: \<^verbatim>\<open>int(math.factorial(total) / (math.factorial(select) *
  math.factorial(total - select)))\<close>, with \<^verbatim>\<open>/\<close> the true division of Python 3.
\<close>

definition combinations :: "nat \<Rightarrow> nat \<Rightarrow> error + int" where
  "combinations tot select =
     (if select > tot then Inr 0
      else case int_truediv (fact tot) (fact select * fact (tot - select)) of
             Inl e \<Rightarrow> Inl e
           | Inr q \<Rightarrow> Inr (trunc q))"

text \<open>
  The options the generator reads. \<^verbatim>\<open>GameMode\<close> and \<^verbatim>\<open>Options\<close> live in
  \<^verbatim>\<open>musicbingo/options.py\<close>; \<^verbatim>\<open>generator.py\<close> names the modes \<^verbatim>\<open>BINGO\<close> and
  \<^verbatim>\<open>QUIZ\<close> and rejects any other, for which \<open>CLIP\<close> stands here.
  \<open>songs_per_ticket\<close> is the value of the method of that name.
\<close>

datatype GameMode = BINGO | QUIZ | CLIP

record Options =
  mode :: GameMode
  game_id :: string
  songs_per_ticket :: nat
  number_of_cards :: int
  page_order :: bool

definition MIN_CARDS :: int where
  "MIN_CARDS = 15"

text \<open>
  \<^verbatim>\<open>check_options\<close>. Two constants come from modules outside \<^verbatim>\<open>generator.py\<close> and
  are parameters: \<open>MAX_SONGS\<close> is \<^verbatim>\<open>len(PRIME_NUMBERS)\<close> and \<open>quiz_positions\<close> is
  \<^verbatim>\<open>len(Assets.QUIZ_COUNTDOWN_POSITIONS)\<close>.
\<close>

definition check_options :: "nat \<Rightarrow> nat \<Rightarrow> Options \<Rightarrow> song list \<Rightarrow> error + unit" where
  "check_options MAX_SONGS quiz_positions options songs =
     (let num_songs = length songs in
      if num_songs = 0 then Inl (ValueError SongListEmpty)
      else if mode options = QUIZ then
        (let max_songs = quiz_positions in
         if num_songs > max_songs then Inl (ValueError (QuizTooManySongs max_songs))
         else Inr ())
      else if mode options \<noteq> BINGO then Inl (ValueError InvalidMode)
      else if game_id options = [] then Inl (ValueError GameIdEmpty)
      else case float_of_int (int (songs_per_ticket options)) of
        Inl e \<Rightarrow> Inl e
      | Inr spt \<Rightarrow>
         (let min_songs = round_half_even (fl (fl (3 / 2 * spt) + 1 / 2)) in
          if int num_songs < min_songs then Inl (ValueError (TooFewSongs min_songs))
          else if num_songs > MAX_SONGS then Inl (ValueError (TooManySongs MAX_SONGS))
          else if number_of_cards options < MIN_CARDS then Inl (ValueError TooFewTickets)
          else case combinations num_songs (songs_per_ticket options) of
            Inl e \<Rightarrow> Inl e
          | Inr max_cards \<Rightarrow>
              if number_of_cards options > max_cards
              then Inl (ValueError (TooManyCards max_cards))
              else Inr ()))"

subsection \<open>Win-point calculator\<close>

text \<open>
  The \<^verbatim>\<open>for count, song in enumerate(tracks, start=1)\<close> loop of
  \<^verbatim>\<open>get_when_ticket_wins\<close>: the state is \<^verbatim>\<open>last_song\<close> and the pending set
  \<^verbatim>\<open>card_track_ids\<close>; the \<^verbatim>\<open>break\<close> is the branch that does not recurse.
\<close>

fun scan_tracks :: "song list \<Rightarrow> nat \<Rightarrow> int \<Rightarrow> nat set \<Rightarrow> int \<times> nat set" where
  "scan_tracks [] cnt last_song ids = (last_song, ids)"
| "scan_tracks (s # rest) cnt last_song ids =
     (let (last_song', ids') =
            (if ref_id s \<in> ids then (int cnt, ids - {ref_id s}) else (last_song, ids))
      in if ids' = {} then (last_song', ids')
         else scan_tracks rest (cnt + 1) last_song' ids')"

definition get_when_ticket_wins :: "song list \<Rightarrow> BingoTicket \<Rightarrow> error + int" where
  "get_when_ticket_wins tracks ticket =
     (let card_track_ids = set (map ref_id (card_tracks ticket));
          (last_song, pending) = scan_tracks tracks 1 (- 1) card_track_ids
      in if pending \<noteq> {} then Inl (ValueError (TicketNeverWins pending))
         else Inr last_song)"

text \<open>
  The 1-based position at which an identity first occurs in a list of identities, and
  the largest such position over a set of identities: what the spec calls the point at
  which the ticket's last required song occurs.
\<close>

definition first_pos :: "nat list \<Rightarrow> nat \<Rightarrow> nat" where
  "first_pos refs x = Suc (length (takeWhile (\<lambda>y. y \<noteq> x) refs))"

definition last_needed :: "nat list \<Rightarrow> nat set \<Rightarrow> nat" where
  "last_needed refs ids = Max (first_pos refs ` ids)"

subsection \<open>Random source and generator state\<close>

text \<open>
  The draws of \<^verbatim>\<open>secrets.randbelow\<close> come from a list of raw values, consumed from
  the front: \<^verbatim>\<open>randbelow(n)\<close> is the next value modulo \<open>n\<close>, and raises for
  \<open>n \<le> 0\<close>. The retry loops of the generator are not bounded; a run ends in
  \<open>Starved\<close> when it asks for a draw and the list is empty, which is what becomes of every
  run that never ends. \<open>Done\<close> is a normal return and \<open>Raised\<close> an exception.
\<close>

type_synonym entropy = "nat list"

datatype 'a outcome = Done 'a | Raised error | Starved

definition randbelow :: "int \<Rightarrow> entropy \<Rightarrow> (int \<times> entropy) outcome" where
  "randbelow n rs =
     (if n \<le> 0 then Raised (ValueError RandBelowNotPositive)
      else case rs of [] \<Rightarrow> Starved | r # rs' \<Rightarrow> Done (int r mod n, rs'))"

definition randrange :: "int \<Rightarrow> int \<Rightarrow> entropy \<Rightarrow> (int \<times> entropy) outcome" where
  "randrange start stop rs =
     (case randbelow (stop - start) rs of
        Done (r, rs') \<Rightarrow> Done (start + r, rs')
      | Raised e \<Rightarrow> Raised e
      | Starved \<Rightarrow> Starved)"

text \<open>
  The state of \<^verbatim>\<open>GameGenerator\<close> that ticket generation reads and writes: the
  used-key set, and the flag \<^verbatim>\<open>progress.abort\<close>, which the generator only reads (it is
  set from outside; a run is modelled with the flag constant).
\<close>

record GameGenerator =
  used_card_ids :: "nat set"
  abort :: bool

subsection \<open>Ticket composer\<close>

text \<open>
  \<^verbatim>\<open>select_songs_for_ticket\<close>: \<open>draw_index\<close> is the inner loop
  \<^verbatim>\<open>while not valid_index\<close>, \<open>select_loop\<close> the outer loop
  \<^verbatim>\<open>while not valid_card and not self.progress.abort\<close>.
\<close>

lemma randbelow_shorter:
  "randbelow n rs = Done (r, rs') \<Longrightarrow> length rs' < length rs"
  by (auto simp: randbelow_def split: if_splits list.splits)

function draw_index :: "nat \<Rightarrow> nat set \<Rightarrow> entropy \<Rightarrow> (nat \<times> entropy) outcome" where
  "draw_index n picked_indices rs =
     (case randbelow (int n) rs of
        Done (index, rs') \<Rightarrow>
          if nat index \<notin> picked_indices then Done (nat index, rs')
          else draw_index n picked_indices rs'
      | Raised e \<Rightarrow> Raised e
      | Starved \<Rightarrow> Starved)"
  by pat_completeness auto
termination
  by (relation "measure (\<lambda>(n, picked_indices, rs). length rs)")
     (auto dest: randbelow_shorter)

declare draw_index.simps [simp del]

lemma draw_index_shorter:
  "draw_index n picked rs = Done (index, rs') \<Longrightarrow> length rs' < length rs"
proof (induction n picked rs rule: draw_index.induct)
  case (1 n picked rs)
  show ?case
  proof (cases "randbelow (int n) rs")
    case (Done x)
    obtain i rs1 where x: "x = (i, rs1)" by (cases x)
    have sh: "length rs1 < length rs" using Done x randbelow_shorter by blast
    show ?thesis
    proof (cases "nat i \<notin> picked")
      case True
      with "1.prems" Done x sh show ?thesis by (simp add: draw_index.simps [of n picked rs])
    next
      case False
      with "1.prems" Done x have "draw_index n picked rs1 = Done (index, rs')"
        by (simp add: draw_index.simps [of n picked rs])
      with "1.IH" [OF Done [unfolded x] refl False] sh show ?thesis by simp
    qed
  next
    case (Raised e)
    with "1.prems" show ?thesis by (simp add: draw_index.simps [of n picked rs])
  next
    case Starved
    with "1.prems" show ?thesis by (simp add: draw_index.simps [of n picked rs])
  qed
qed

function select_loop ::
  "song list \<Rightarrow> nat \<Rightarrow> GameGenerator \<Rightarrow> nat set \<Rightarrow> BingoTicket \<Rightarrow> entropy
     \<Rightarrow> (BingoTicket \<times> GameGenerator \<times> entropy) outcome" where
  "select_loop songs num_tracks g picked_indices bcard rs =
     (if abort g then Done (bcard, g, rs)
      else case draw_index (length songs) picked_indices rs of
        Done (index, rs') \<Rightarrow>
          (let bcard' = bcard\<lparr>card_tracks := card_tracks bcard @ [songs ! index],
                             card_id := card_id bcard * song_id (songs ! index)\<rparr>
           in if length (card_tracks bcard') = num_tracks then
                (if card_id bcard' \<in> used_card_ids g
                 then select_loop songs num_tracks g {} (bcard'\<lparr>card_tracks := [], card_id := 1\<rparr>) rs'
                 else Done (bcard', g\<lparr>used_card_ids := insert (card_id bcard') (used_card_ids g)\<rparr>, rs'))
              else select_loop songs num_tracks g (insert index picked_indices) bcard' rs')
      | Raised e \<Rightarrow> Raised e
      | Starved \<Rightarrow> Starved)"
  by pat_completeness auto
termination
proof (relation "measure (\<lambda>(songs, num_tracks, g, picked_indices, bcard, rs). length rs)",
    goal_cases)
  case 1
  show ?case by simp
next
  case (2 songs num_tracks g picked_indices bcard rs x1 x y xa)
  then have "draw_index (length songs) picked_indices rs = Done (x, y)" by simp
  from draw_index_shorter [OF this] show ?case by simp
next
  case (3 songs num_tracks g picked_indices bcard rs x1 x y xa)
  then have "draw_index (length songs) picked_indices rs = Done (x, y)" by simp
  from draw_index_shorter [OF this] show ?case by simp
qed

declare select_loop.simps [simp del]

definition select_songs_for_ticket ::
  "GameGenerator \<Rightarrow> song list \<Rightarrow> BingoTicket \<Rightarrow> nat \<Rightarrow> entropy
     \<Rightarrow> (BingoTicket \<times> GameGenerator \<times> entropy) outcome" where
  "select_songs_for_ticket g songs bcard num_tracks rs =
     select_loop songs num_tracks g {} (bcard\<lparr>card_tracks := [], card_id := 1\<rparr>) rs"


lemma select_loop_Done:
  assumes "select_loop songs n g picked bcard rs = Done (c, g', rs')"
  shows "abort g' = abort g
         \<and> (abort g \<longrightarrow> rs' = rs)
         \<and> (\<not> abort g \<longrightarrow>
               length rs' < length rs
             \<and> card_id c \<notin> used_card_ids g
             \<and> used_card_ids g' = insert (card_id c) (used_card_ids g)
             \<and> ticket_number c = ticket_number bcard)"
  using assms
proof (induction songs n g picked bcard rs rule: select_loop.induct)
  case (1 songs n g picked bcard rs)
  note unfold = select_loop.simps [of songs n g picked bcard rs]
  show ?case
  proof (cases "abort g")
    case True
    with "1.prems" show ?thesis by (simp add: unfold)
  next
    case na: False
    show ?thesis
    proof (cases "draw_index (length songs) picked rs")
      case (Done x)
      obtain index rs1 where x: "x = (index, rs1)" by (cases x)
      define bcard' where "bcard' = bcard\<lparr>card_tracks := card_tracks bcard @ [songs ! index],
                             card_id := card_id bcard * song_id (songs ! index)\<rparr>"
      have sh: "length rs1 < length rs"
        using Done x draw_index_shorter by blast
      have tn: "ticket_number bcard' = ticket_number bcard" by (simp add: bcard'_def)
      consider (dup) "length (card_tracks bcard') = n" "card_id bcard' \<in> used_card_ids g"
        | (new) "length (card_tracks bcard') = n" "card_id bcard' \<notin> used_card_ids g"
        | (more) "length (card_tracks bcard') \<noteq> n"
        by blast
      then show ?thesis
      proof cases
        case dup
        have "select_loop songs n g {} (bcard'\<lparr>card_tracks := [], card_id := 1\<rparr>) rs1 = Done (c, g', rs')"
          using "1.prems" na Done x dup by (simp add: unfold bcard'_def Let_def)
        from "1.IH"(1) [OF na Done x [symmetric] bcard'_def dup this] na sh tn
        show ?thesis by simp
      next
        case new
        have sl: "select_loop songs n g picked bcard rs
                = Done (bcard', g\<lparr>used_card_ids := insert (card_id bcard') (used_card_ids g)\<rparr>, rs1)"
          using na Done x new by (simp add: unfold bcard'_def Let_def)
        from "1.prems" [unfolded sl outcome.inject prod.inject] have eq: "c = bcard'" "rs' = rs1"
          "g' = g\<lparr>used_card_ids := insert (card_id bcard') (used_card_ids g)\<rparr>"
          by blast+
        show ?thesis unfolding eq using new sh tn na by simp
      next
        case more
        have "select_loop songs n g (insert index picked) bcard' rs1 = Done (c, g', rs')"
          using "1.prems" na Done x more by (simp add: unfold bcard'_def Let_def)
        from "1.IH"(2) [OF na Done x [symmetric] bcard'_def more this] na sh tn
        show ?thesis by simp
      qed
    next
      case (Raised e)
      with "1.prems" na show ?thesis by (simp add: unfold)
    next
      case Starved
      with "1.prems" na show ?thesis by (simp add: unfold)
    qed
  qed
qed

lemma select_songs_for_ticket_Done:
  assumes "select_songs_for_ticket g songs bcard n rs = Done (c, g', rs')"
  shows "abort g' = abort g"
    and "abort g \<Longrightarrow> rs' = rs"
    and "\<not> abort g \<Longrightarrow> length rs' < length rs"
    and "\<not> abort g \<Longrightarrow> card_id c \<notin> used_card_ids g"
    and "\<not> abort g \<Longrightarrow> used_card_ids g' = insert (card_id c) (used_card_ids g)"
    and "\<not> abort g \<Longrightarrow> ticket_number c = ticket_number bcard"
  using select_loop_Done [OF assms [unfolded select_songs_for_ticket_def]] by simp_all

subsection \<open>Targeted generator\<close>

text \<open>
  \<^verbatim>\<open>generate_at_point\<close>: the loop \<^verbatim>\<open>while count < amount\<close>, with \<open>cnt\<close> for
  \<^verbatim>\<open>count\<close>. \<^verbatim>\<open>set.remove\<close> raises \<^verbatim>\<open>KeyError\<close> for an absent key.
\<close>

function generate_at_point_loop ::
  "Options \<Rightarrow> song list \<Rightarrow> int \<Rightarrow> int \<Rightarrow> int \<Rightarrow> GameGenerator \<Rightarrow> BingoTicket list \<Rightarrow> entropy
     \<Rightarrow> (BingoTicket list \<times> GameGenerator \<times> entropy) outcome" where
  "generate_at_point_loop opts tracks amount from_end cnt g cards rs =
     (if cnt < amount then
        (case select_songs_for_ticket g tracks new_ticket (songs_per_ticket opts) rs of
           Done (bcard, g', rs') \<Rightarrow>
             if abort g' then Done (cards, g', rs')
             else (case get_when_ticket_wins tracks bcard of
                     Inl e \<Rightarrow> Raised e
                   | Inr win_point \<Rightarrow>
                       if win_point \<noteq> int (length tracks) - from_end then
                         (if card_id bcard \<in> used_card_ids g'
                          then generate_at_point_loop opts tracks amount from_end cnt
                                 (g'\<lparr>used_card_ids := used_card_ids g' - {card_id bcard}\<rparr>) cards rs'
                          else Raised KeyError)
                       else generate_at_point_loop opts tracks amount from_end (cnt + 1) g'
                              (cards @ [bcard]) rs')
         | Raised e \<Rightarrow> Raised e
         | Starved \<Rightarrow> Starved)
      else Done (cards, g, rs))"
  by pat_completeness auto
termination
proof (relation "measure (\<lambda>(opts, tracks, amount, from_end, cnt, g, cards, rs). length rs)",
    goal_cases)
  case 1
  show ?case by simp
next
  case (2 opts tracks amount from_end cnt g cards rs x1 x y xa ya b)
  then have d: "select_songs_for_ticket g tracks new_ticket (songs_per_ticket opts) rs
                  = Done (x, xa, ya)"
    by simp
  from select_songs_for_ticket_Done(1,3) [OF d] 2 show ?case by simp
next
  case (3 opts tracks amount from_end cnt g cards rs x1 x y xa ya b)
  then have d: "select_songs_for_ticket g tracks new_ticket (songs_per_ticket opts) rs
                  = Done (x, xa, ya)"
    by simp
  from select_songs_for_ticket_Done(1,3) [OF d] 3 show ?case by simp
qed


declare generate_at_point_loop.simps [simp del]

definition generate_at_point ::
  "Options \<Rightarrow> GameGenerator \<Rightarrow> song list \<Rightarrow> int \<Rightarrow> int \<Rightarrow> entropy
     \<Rightarrow> (BingoTicket list \<times> GameGenerator \<times> entropy) outcome" where
  "generate_at_point opts g tracks amount from_end rs =
     generate_at_point_loop opts tracks amount from_end 0 g [] rs"

lemma generate_at_point_loop_Done:
  assumes "generate_at_point_loop opts tracks amount from_end cnt g cards rs = Done (cards', g', rs')"
  shows "abort g' = abort g \<and> length rs' \<le> length rs
         \<and> (\<not> abort g \<longrightarrow>
              (\<exists>new. cards' = cards @ new
                  \<and> int (length new) = max 0 (amount - cnt)
                  \<and> (\<forall>c\<in>set new. get_when_ticket_wins tracks c = Inr (int (length tracks) - from_end)
                                   \<and> ticket_number c = None)
                  \<and> distinct (map card_id new)
                  \<and> card_id ` set new \<inter> used_card_ids g = {}
                  \<and> used_card_ids g' = used_card_ids g \<union> card_id ` set new))"
  using assms
proof (induction opts tracks amount from_end cnt g cards rs rule: generate_at_point_loop.induct)
  case (1 opts tracks amount from_end cnt g cards rs)
  note unfold = generate_at_point_loop.simps [of opts tracks amount from_end cnt g cards rs]
  show ?case
  proof (cases "cnt < amount")
    case False
    with "1.prems" show ?thesis by (simp add: unfold)
  next
    case lt: True
    show ?thesis
    proof (cases "select_songs_for_ticket g tracks new_ticket (songs_per_ticket opts) rs")
      case (Done x)
      obtain bcard g1 rs1 where x: "x = (bcard, g1, rs1)" by (cases x)
      note d = Done [unfolded x]
      note sel = select_songs_for_ticket_Done [OF d]
      show ?thesis
      proof (cases "abort g1")
        case True
        with "1.prems" lt d sel(1,2) show ?thesis by (simp add: unfold)
      next
        case na: False
        then have nag: "\<not> abort g" using sel(1) by simp
        note sel' = sel(3-6) [OF nag]
        show ?thesis
        proof (cases "get_when_ticket_wins tracks bcard")
          case (Inl e)
          with "1.prems" lt d na show ?thesis by (simp add: unfold)
        next
          case (Inr win_point)
          show ?thesis
          proof (cases "win_point \<noteq> int (length tracks) - from_end")
            case ne: True
            have mem: "card_id bcard \<in> used_card_ids g1" using sel'(3) by simp
            let ?g2 = "g1\<lparr>used_card_ids := used_card_ids g1 - {card_id bcard}\<rparr>"
            have rec: "generate_at_point_loop opts tracks amount from_end cnt ?g2 cards rs1
                         = Done (cards', g', rs')"
              using "1.prems" lt d na Inr ne mem by (simp add: unfold)
            have u2: "used_card_ids ?g2 = used_card_ids g" using sel'(2,3) by auto
            have a2: "abort ?g2 = abort g" using sel(1) by simp
            from "1.IH"(1) [OF lt d [symmetric, THEN sym] refl refl na Inr ne mem rec]
            show ?thesis using sel'(1) nag by (simp add: u2 a2)
          next
            case eq: False
            then have wp: "win_point = int (length tracks) - from_end" by simp
            have rec: "generate_at_point_loop opts tracks amount from_end (cnt + 1) g1
                         (cards @ [bcard]) rs1 = Done (cards', g', rs')"
              using "1.prems" lt d na Inr eq by (simp add: unfold)
            from "1.IH"(2) [OF lt d [symmetric, THEN sym] refl refl na Inr eq rec] na
            obtain new1 where n1: "cards' = (cards @ [bcard]) @ new1"
              "int (length new1) = max 0 (amount - (cnt + 1))"
              "\<forall>c\<in>set new1. get_when_ticket_wins tracks c = Inr (int (length tracks) - from_end)
                                   \<and> ticket_number c = None"
              "distinct (map card_id new1)"
              "card_id ` set new1 \<inter> used_card_ids g1 = {}"
              "used_card_ids g' = used_card_ids g1 \<union> card_id ` set new1"
              and ab: "abort g' = abort g1" and len: "length rs' \<le> length rs1"
              by blast
            let ?new = "bcard # new1"
            have "cards' = cards @ ?new" using n1(1) by simp
            moreover have "int (length ?new) = max 0 (amount - cnt)" using n1(2) lt by simp
            moreover have "\<forall>c\<in>set ?new. get_when_ticket_wins tracks c = Inr (int (length tracks) - from_end)
                                   \<and> ticket_number c = None"
              using n1(3) Inr wp sel'(4) by (simp add: new_ticket_def)
            moreover have "distinct (map card_id ?new)"
              using n1(4,5) sel'(3) by auto
            moreover have "card_id ` set ?new \<inter> used_card_ids g = {}"
              using n1(5) sel'(2,3) by auto
            moreover have "used_card_ids g' = used_card_ids g \<union> card_id ` set ?new"
              using n1(6) sel'(3) by auto
            ultimately show ?thesis using ab sel(1) len sel'(1) by (intro conjI impI exI [of _ ?new]) simp_all
          qed
        qed
      qed
    next
      case (Raised e)
      with "1.prems" lt show ?thesis by (simp add: unfold)
    next
      case Starved
      with "1.prems" lt show ?thesis by (simp add: unfold)
    qed
  qed
qed


subsection \<open>Distribution scheduler\<close>

text \<open>Sequencing: the first exception or starvation ends the run.\<close>

definition and_then :: "'a outcome \<Rightarrow> ('a \<Rightarrow> 'b outcome) \<Rightarrow> 'b outcome" where
  "and_then m f = (case m of Done x \<Rightarrow> f x | Raised e \<Rightarrow> Raised e | Starved \<Rightarrow> Starved)"

definition of_sum :: "error + 'a \<Rightarrow> 'a outcome" where
  "of_sum r = (case r of Inl e \<Rightarrow> Raised e | Inr x \<Rightarrow> Done x)"

text \<open>\<^verbatim>\<open>list.insert(i, x)\<close>: a negative index counts from the end, and the index is clamped.\<close>

definition list_insert :: "'a list \<Rightarrow> int \<Rightarrow> 'a \<Rightarrow> 'a list" where
  "list_insert xs i x =
     (let n = int (length xs);
          j = (if i < 0 then max 0 (i + n) else min i n)
      in take (nat j) xs @ x # drop (nat j) xs)"

text \<open>\<^verbatim>\<open>insert_random_cards\<close>: \<open>insert_loop\<close> is its \<^verbatim>\<open>for _ in range(0, num_cards)\<close>.\<close>

fun insert_loop ::
  "nat \<Rightarrow> Options \<Rightarrow> song list \<Rightarrow> int \<Rightarrow> int \<Rightarrow> int \<Rightarrow> rat \<Rightarrow> rat \<Rightarrow> GameGenerator
     \<Rightarrow> BingoTicket list \<Rightarrow> entropy \<Rightarrow> (BingoTicket list \<times> GameGenerator \<times> entropy) outcome" where
  "insert_loop 0 opts tracks point num_cards num_on_last increment start_point g cards rs =
     Done (cards, g, rs)"
| "insert_loop (Suc n) opts tracks point num_cards num_on_last increment start_point g cards rs =
     and_then (randrange \<lceil>start_point\<rceil> \<lceil>fl (start_point + increment)\<rceil> rs) (\<lambda>(rand_point, rs1).
       let rand_point' = (if rand_point \<ge> num_on_last + num_cards
                          then num_on_last + num_cards - 1 else rand_point)
       in and_then (generate_at_point opts g tracks 1 point rs1) (\<lambda>(new_cards, g', rs2).
            case new_cards of
              [] \<Rightarrow> Raised IndexError
            | bcard # _ \<Rightarrow>
                insert_loop n opts tracks point num_cards num_on_last increment
                  (fl (start_point + increment)) g' (list_insert cards rand_point' bcard) rs2))"

definition insert_random_cards ::
  "Options \<Rightarrow> song list \<Rightarrow> int \<Rightarrow> int \<Rightarrow> int \<Rightarrow> GameGenerator \<Rightarrow> BingoTicket list \<Rightarrow> entropy
     \<Rightarrow> (BingoTicket list \<times> GameGenerator \<times> entropy) outcome" where
  "insert_random_cards opts tracks point num_cards num_on_last g cards rs =
     and_then (of_sum (float_of_int num_cards)) (\<lambda>fnum.
     and_then (of_sum (float_of_int (int (length cards) + num_cards))) (\<lambda>ftotal.
       if fnum = 0 then Raised ZeroDivisionError
       else insert_loop (nat num_cards) opts tracks point num_cards num_on_last
              (fl (ftotal / fnum)) 0 g cards rs))"

text \<open>
  \<^verbatim>\<open>random.shuffle\<close> of the standard library: for \<open>i\<close> from \<open>len(x) - 1\<close> down to 1,
  swap \<open>x[i]\<close> with \<open>x[j]\<close> for a random \<open>j \<le> i\<close>. Its draws are taken from the same
  entropy as those of \<^verbatim>\<open>secrets\<close>.
\<close>

fun shuffle_loop :: "nat \<Rightarrow> 'a list \<Rightarrow> entropy \<Rightarrow> ('a list \<times> entropy) outcome" where
  "shuffle_loop 0 x rs = Done (x, rs)"
| "shuffle_loop (Suc i) x rs =
     and_then (randbelow (int (Suc i) + 1) rs) (\<lambda>(j, rs').
       shuffle_loop i (x[Suc i := x ! nat j, nat j := x ! Suc i]) rs')"

definition shuffle :: "'a list \<Rightarrow> entropy \<Rightarrow> ('a list \<times> entropy) outcome" where
  "shuffle x rs = shuffle_loop (length x - 1) x rs"

text \<open>
  The tier arithmetic of \<^verbatim>\<open>generate_all_cards\<close>, from \<^verbatim>\<open>decay_rate = 0.65\<close> to the
  correction of \<^verbatim>\<open>num_on_last\<close>: the result is \<^verbatim>\<open>(num_on_last, num_second_last,
  num_third_last, num_fourth_last, offset)\<close>. \<open>fN\<close> is \<^verbatim>\<open>number_of_cards\<close> as a float.
\<close>

definition tier_counts :: "int \<Rightarrow> rat \<Rightarrow> int \<times> int \<times> int \<times> int \<times> int" where
  "tier_counts N fN =
     (let decay_rate = fl (13 / 20);
          num_on_last = fl (fN * decay_rate);
          num_second_last = fl (fl (fN - num_on_last) * decay_rate);
          num_third_last = fl (fl (fl (fN - num_on_last) - num_second_last) * decay_rate);
          num_fourth_last =
            fl (fl (fl (fl (fN - num_on_last) - num_second_last) - num_third_last) * decay_rate);
          num_on_last = trunc num_on_last;
          num_second_last = trunc num_second_last;
          num_third_last = trunc num_third_last;
          num_fourth_last = max (trunc num_fourth_last) 1;
          amount_left = N - num_on_last - num_second_last - num_third_last - num_fourth_last;
          amount_to_go = 4;
          (offset, num_fourth_last, num_on_last) =
            (if num_fourth_last \<in> {0, 1} then (3, 0, num_on_last + 1)
             else (4, num_fourth_last, num_on_last));
          num_on_last =
            (if amount_left < amount_to_go \<or> amount_left > amount_to_go
             then num_on_last - (amount_to_go - amount_left) else num_on_last)
      in (num_on_last, num_second_last, num_third_last, num_fourth_last, offset))"

text \<open>
  The loop \<^verbatim>\<open>for idx in range(0, amount_to_go)\<close> that generates the four extra tickets;
  \<open>None\<close> is the early \<^verbatim>\<open>return cards\<close> on abort.
\<close>

fun good_cards_loop ::
  "nat \<Rightarrow> Options \<Rightarrow> song list \<Rightarrow> int \<Rightarrow> GameGenerator \<Rightarrow> BingoTicket list \<Rightarrow> entropy
     \<Rightarrow> (BingoTicket list option \<times> GameGenerator \<times> entropy) outcome" where
  "good_cards_loop 0 opts tracks offset g good_cards rs = Done (Some good_cards, g, rs)"
| "good_cards_loop (Suc n) opts tracks offset g good_cards rs =
     (if abort g then Done (None, g, rs)
      else and_then (generate_at_point opts g tracks 1 offset rs) (\<lambda>(new_cards, g', rs').
             good_cards_loop n opts tracks (offset + 1) g' (good_cards @ new_cards) rs'))"

text \<open>
  The loop \<^verbatim>\<open>for card in good_cards\<close> that places them; \<open>Inl\<close> is the early
  \<^verbatim>\<open>return cards\<close> on abort.
\<close>

fun place_loop ::
  "BingoTicket list \<Rightarrow> int \<Rightarrow> rat \<Rightarrow> rat \<Rightarrow> GameGenerator \<Rightarrow> BingoTicket list \<Rightarrow> entropy
     \<Rightarrow> ((BingoTicket list + BingoTicket list) \<times> entropy) outcome" where
  "place_loop [] N increment start_point g cards rs = Done (Inr cards, rs)"
| "place_loop (bcard # good_cards) N increment start_point g cards rs =
     (if abort g then Done (Inl cards, rs)
      else and_then (randrange \<lceil>start_point\<rceil> \<lceil>fl (start_point + increment)\<rceil> rs) (\<lambda>(rand_point, rs').
             let rand_point' = min rand_point (N - 1)
             in place_loop good_cards N increment (fl (start_point + increment)) g
                  (list_insert cards rand_point' bcard) rs'))"

definition number_cards :: "BingoTicket list \<Rightarrow> BingoTicket list" where
  "number_cards cards =
     map (\<lambda>(idx, bcard). bcard\<lparr>ticket_number := Some idx\<rparr>) (enumerate 1 cards)"

subsection \<open>Page sequencer\<close>

text \<open>\<^verbatim>\<open>xs[i:j]\<close>, and the \<^verbatim>\<open>while len(first_third) > 0\<close> loop of \<^verbatim>\<open>sort_cards_by_page\<close>.\<close>

definition py_slice :: "'a list \<Rightarrow> int \<Rightarrow> int \<Rightarrow> 'a list" where
  "py_slice xs i j =
     (let n = int (length xs);
          i' = (if i < 0 then max 0 (i + n) else min i n);
          j' = (if j < 0 then max 0 (j + n) else min j n)
      in take (nat (j' - i')) (drop (nat i') xs))"

fun page_loop :: "'a list \<Rightarrow> 'a list \<Rightarrow> 'a list \<Rightarrow> 'a list \<Rightarrow> 'a list" where
  "page_loop [] second_third third_third cards = cards"
| "page_loop (x # first_third) second_third third_third cards =
     (let cards = cards @ [x];
          (cards, second_third) =
            (case second_third of [] \<Rightarrow> (cards, []) | y # ys \<Rightarrow> (cards @ [y], ys));
          (cards, third_third) =
            (case third_third of [] \<Rightarrow> (cards, []) | z # zs \<Rightarrow> (cards @ [z], zs))
      in page_loop first_third second_third third_third cards)"

definition sort_cards_by_page :: "Options \<Rightarrow> BingoTicket list \<Rightarrow> error + BingoTicket list" where
  "sort_cards_by_page opts cards =
     (case int_truediv (number_of_cards opts) 3 of
        Inl e \<Rightarrow> Inl e
      | Inr q \<Rightarrow>
          let noc3c = \<lceil>q\<rceil>;
              noc3f = \<lfloor>q\<rfloor>;
              first_third = py_slice cards 0 noc3c;
              second_third = py_slice cards noc3c (noc3c + noc3f);
              third_third = py_slice cards (noc3c + noc3f) (int (length cards))
          in Inr (page_loop first_third second_third third_third []))"

definition generate_all_cards ::
  "Options \<Rightarrow> GameGenerator \<Rightarrow> song list \<Rightarrow> entropy
     \<Rightarrow> (BingoTicket list \<times> GameGenerator \<times> entropy) outcome" where
  "generate_all_cards opts g0 tracks rs =
     (let g = g0\<lparr>used_card_ids := {}\<rparr>;
          N = number_of_cards opts
      in and_then (of_sum (float_of_int N)) (\<lambda>fN.
         let (num_on_last, num_second_last, num_third_last, num_fourth_last, offset) =
               tier_counts N fN
         in
         and_then (generate_at_point opts g tracks num_on_last 0 rs) (\<lambda>(cards, g, rs).
         and_then (if num_second_last \<noteq> 0
                   then insert_random_cards opts tracks 1 num_second_last num_on_last g cards rs
                   else Done (cards, g, rs)) (\<lambda>(cards, g, rs).
         and_then (if num_third_last \<noteq> 0
                   then insert_random_cards opts tracks 2 num_third_last num_on_last g cards rs
                   else Done (cards, g, rs)) (\<lambda>(cards, g, rs).
         and_then (if num_fourth_last \<noteq> 0
                   then insert_random_cards opts tracks 3 num_fourth_last num_on_last g cards rs
                   else Done (cards, g, rs)) (\<lambda>(cards, g, rs).
         and_then (good_cards_loop 4 opts tracks offset g [] rs) (\<lambda>(good, g, rs).
           case good of
             None \<Rightarrow> Done (cards, g, rs)
           | Some good_cards \<Rightarrow>
               let increment = fl (fN / 4) in
               and_then (shuffle good_cards rs) (\<lambda>(good_cards, rs).
               and_then (place_loop good_cards N increment 0 g cards rs) (\<lambda>(placed, rs).
                 case placed of
                   Inl cards \<Rightarrow> Done (cards, g, rs)
                 | Inr cards \<Rightarrow>
                     let cards = number_cards cards in
                     if page_order opts
                     then and_then (of_sum (sort_cards_by_page opts cards)) (\<lambda>cards.
                            Done (cards, g, rs))
                     else Done (cards, g, rs))))))))))"

subsection \<open>Properties of the float model\<close>

lemma pow2_powi: "pow2 k = 2 powi k"
  by (simp add: pow2_def power_int_def inverse_eq_divide power_divide)

lemma pow2_pos: "0 < pow2 k"
  by (simp add: pow2_def)

lemma pow2_add: "pow2 (a + b) = pow2 a * pow2 b"
  by (simp add: pow2_powi power_int_add)

lemma pow2_diff: "pow2 (a - b) = pow2 a / pow2 b"
  by (simp add: pow2_powi power_int_diff)

lemma pow2_mono: "a \<le> b \<Longrightarrow> pow2 a \<le> pow2 b"
  by (simp add: pow2_powi power_int_increasing)

lemma pow2_numeral: "pow2 (numeral n) = 2 ^ numeral n"
  by (simp add: pow2_def)

lemma pow2_less_iff: "pow2 a < pow2 b \<longleftrightarrow> a < b"
proof
  assume "pow2 a < pow2 b"
  then show "a < b" using pow2_mono [of b a] by (cases "a < b") simp_all
next
  assume "a < b"
  then show "pow2 a < pow2 b" by (simp add: pow2_powi power_int_strict_increasing)
qed

lemma pow2_nat: "pow2 (int n) = 2 ^ n"
  by (simp add: pow2_def)

lemma ilog2_bounds:
  assumes "0 < x"
  shows "pow2 (ilog2 x) \<le> x" "x < pow2 (ilog2 x + 1)"
proof -
  have "pow2 (ilog2 x) \<le> x \<and> x < pow2 (ilog2 x + 1)"
  proof (cases "1 \<le> x")
    case True
    define m where "m = \<lfloor>x\<rfloor>"
    have m: "0 < m" using True by (simp add: m_def)
    have b: "2 ^ nat (bitlen m - 1) \<le> m" "m < 2 ^ nat (bitlen m)"
      using bitlen_bounds [OF m] by simp_all
    have bl: "1 \<le> bitlen m" using m by (simp add: bitlen_alt_def)
    have e: "ilog2 x = bitlen m - 1" using True by (simp add: ilog2_def m_def)
    have "rat_of_int (2 ^ nat (bitlen m - 1)) \<le> of_int m" using b(1) by (simp only: of_int_le_iff)
    also have "\<dots> \<le> x" by (simp add: m_def)
    finally have lo: "pow2 (ilog2 x) \<le> x" using bl by (simp add: e pow2_def)
    have "x < of_int (m + 1)" unfolding m_def by linarith
    also have "rat_of_int (m + 1) \<le> of_int (2 ^ nat (bitlen m))"
      using b(2) by (simp only: of_int_le_iff)
    finally have hi: "x < pow2 (ilog2 x + 1)" using bl by (simp add: e pow2_def)
    from lo hi show ?thesis ..
  next
    case False
    define c where "c = \<lceil>1 / x\<rceil>"
    define n where "n = c - 1"
    define L where "L = bitlen n"
    have y: "1 < 1 / x" using False assms by simp
    then have c2: "2 \<le> c" unfolding c_def by (simp add: le_ceiling_iff)
    then have n: "0 < n" by (simp add: n_def)
    have b: "2 ^ nat (L - 1) \<le> n" "n < 2 ^ nat L"
      using bitlen_bounds [OF n] by (simp_all add: L_def)
    have L1: "1 \<le> L" using n by (simp add: L_def bitlen_alt_def)
    have e: "ilog2 x = - L" using False by (simp add: ilog2_def L_def n_def c_def)
    have "1 / x \<le> of_int c" by (simp add: c_def)
    also have "rat_of_int c \<le> of_int (2 ^ nat L)"
      using b(2) by (simp only: of_int_le_iff) (simp add: n_def)
    finally have "1 / x \<le> 2 ^ nat L" by simp
    then have "1 \<le> 2 ^ nat L * x" using assms by (simp add: field_simps)
    then have lo: "pow2 (ilog2 x) \<le> x" using L1 by (simp add: e pow2_def field_simps)
    have "rat_of_int (2 ^ nat (L - 1)) \<le> of_int n" using b(1) by (simp only: of_int_le_iff)
    also have "rat_of_int n < 1 / x" unfolding n_def c_def
      by (metis add_diff_cancel_right' ceiling_correct diff_add_cancel of_int_1 of_int_add)
    finally have "2 ^ nat (L - 1) < 1 / x" by simp
    then have lt: "2 ^ nat (L - 1) * x < 1" using assms by (simp add: field_simps)
    have hi: "x < pow2 (ilog2 x + 1)"
    proof (cases "L = 1")
      case True
      with False show ?thesis by (simp add: e pow2_def)
    next
      case False
      with L1 have "\<not> 0 \<le> - L + 1" by simp
      moreover have "nat (L - 1) = nat (- (- L + 1))" by simp
      ultimately show ?thesis using lt by (simp add: e pow2_def field_simps)
    qed
    from lo hi show ?thesis ..
  qed
  then show "pow2 (ilog2 x) \<le> x" "x < pow2 (ilog2 x + 1)" by simp_all
qed

lemma round_half_even_of_int [simp]: "round_half_even (of_int m) = m"
  by (simp add: round_half_even_def)

lemma round_half_even_error: "\<bar>of_int (round_half_even z) - z\<bar> \<le> 1 / 2"
proof -
  have "of_int \<lfloor>z\<rfloor> \<le> z" "z < of_int \<lfloor>z\<rfloor> + 1" by linarith+
  then show ?thesis
    by (auto simp: round_half_even_def Let_def)
qed

lemma round_half_even_nonneg: "0 \<le> z \<Longrightarrow> 0 \<le> round_half_even z"
  by (auto simp: round_half_even_def Let_def)

lemma fl_nonneg:
  assumes "0 \<le> x"
  shows "0 \<le> fl x"
proof (cases "x = 0")
  case True
  then show ?thesis by (simp add: fl_def)
next
  case False
  define e where "e = max (ilog2 \<bar>x\<bar> - 52) (- 1074)"
  have "0 \<le> x / pow2 e" using assms pow2_pos [of e] by simp
  then have "0 \<le> rat_of_int (round_half_even (x / pow2 e))"
    using round_half_even_nonneg by simp
  then have "0 \<le> rat_of_int (round_half_even (x / pow2 e)) * pow2 e"
    using pow2_pos [of e] by simp
  with False show ?thesis by (simp add: fl_def Let_def e_def)
qed

text \<open>A value with at most 53 significant bits and an exponent in range is a double.\<close>

lemma fl_exact:
  assumes "0 < m" "m < 2 ^ 53" "- 1074 \<le> k"
  shows "fl (of_int m * pow2 k) = of_int m * pow2 k"
proof -
  let ?x = "rat_of_int m * pow2 k"
  have x: "0 < ?x" using assms(1) pow2_pos by simp
  define e where "e = max (ilog2 \<bar>?x\<bar> - 52) (- 1074)"
  have "pow2 (ilog2 ?x) \<le> ?x" using ilog2_bounds(1) [OF x] .
  also have "?x < 2 ^ 53 * pow2 k"
    using assms(2) pow2_pos [of k] by simp
  also have "\<dots> = pow2 (53 + k)" by (simp add: pow2_add pow2_numeral)
  finally have "ilog2 ?x < 53 + k" by (simp add: pow2_less_iff)
  with assms(3) have ek: "e \<le> k" using x by (simp add: e_def)
  then obtain j where j: "k = e + int j" by (metis nat_le_iff_add zle_iff_zadd)
  have "?x / pow2 e = of_int (m * 2 ^ j)"
    using pow2_pos [of e] by (simp add: j pow2_add pow2_nat less_imp_neq [THEN not_sym])
  then have "of_int (round_half_even (?x / pow2 e)) * pow2 e = of_int (m * 2 ^ j) * pow2 e"
    by (simp only: round_half_even_of_int)
  also have "\<dots> = ?x" by (simp add: j pow2_add pow2_nat)
  finally show ?thesis using x by (simp add: fl_def Let_def e_def)
qed

lemma fl_0 [simp]: "fl 0 = 0"
  by (simp add: fl_def)

lemma fl_of_int: "0 \<le> m \<Longrightarrow> m < 2 ^ 53 \<Longrightarrow> fl (of_int m) = of_int m"
  using fl_exact [of m 0] by (cases "m = 0") (simp_all add: pow2_def)

lemma fl_half_int: "0 \<le> m \<Longrightarrow> m < 2 ^ 53 \<Longrightarrow> fl (of_int m / 2) = of_int m / 2"
  using fl_exact [of m "- 1"] by (cases "m = 0") (simp_all add: pow2_def)

text \<open>The relative error of rounding in the normal range.\<close>

lemma fl_error:
  assumes "pow2 (- 1022) \<le> x"
  shows "\<bar>fl x - x\<bar> \<le> x / 2 ^ 53"
proof -
  have x: "0 < x" using assms pow2_pos [of "- 1022"] by linarith
  define e where "e = ilog2 x - 52"
  have "pow2 (- 1022) < pow2 (ilog2 x + 1)"
    using assms ilog2_bounds(2) [OF x] by linarith
  then have "- 1022 < ilog2 x + 1" by (simp add: pow2_less_iff)
  then have e: "max (ilog2 \<bar>x\<bar> - 52) (- 1074) = e" using x by (simp add: e_def)
  have fl: "fl x = of_int (round_half_even (x / pow2 e)) * pow2 e"
    using x e by (simp add: fl_def Let_def)
  have "fl x - x = (of_int (round_half_even (x / pow2 e)) - x / pow2 e) * pow2 e"
    using pow2_pos [of e] by (simp add: fl field_simps)
  then have "\<bar>fl x - x\<bar> = \<bar>of_int (round_half_even (x / pow2 e)) - x / pow2 e\<bar> * pow2 e"
    using pow2_pos [of e] by (simp add: abs_mult)
  also have "\<dots> \<le> 1 / 2 * pow2 e"
    using round_half_even_error [of "x / pow2 e"] pow2_pos [of e]
    by (intro mult_right_mono) simp_all
  also have "pow2 e = pow2 (ilog2 x) / 2 ^ 52"
    by (simp add: e_def pow2_diff pow2_numeral)
  also have "1 / 2 * (pow2 (ilog2 x) / 2 ^ 52) = pow2 (ilog2 x) / 2 ^ 53" by simp
  also have "\<dots> \<le> x / 2 ^ 53"
    using ilog2_bounds(1) [OF x] by (simp add: divide_right_mono)
  finally show ?thesis .
qed



text \<open>Rules that evaluate the float operations on numerals.\<close>

lemma floor_rat_numeral_div:
  "\<lfloor>(numeral a / numeral b :: rat)\<rfloor> = numeral a div numeral b"
  using floor_divide_of_int_eq [of "numeral a" "numeral b", where ?'a = rat] by simp

lemma floor_rat_neg_numeral_div:
  "\<lfloor>(- (numeral a / numeral b) :: rat)\<rfloor> = (- numeral a) div numeral b"
  using floor_divide_of_int_eq [of "- numeral a" "numeral b", where ?'a = rat] by simp

lemma ceiling_rat_numeral_div:
  "\<lceil>(numeral a / numeral b :: rat)\<rceil> = - ((- numeral a) div numeral b)"
  unfolding ceiling_def by (simp add: floor_rat_neg_numeral_div)

lemma ceiling_rat_neg_numeral_div:
  "\<lceil>(- (numeral a / numeral b) :: rat)\<rceil> = - (numeral a div numeral b)"
  unfolding ceiling_def by (simp add: floor_rat_numeral_div)

lemma floor_rat_one_div: "\<lfloor>(1 / numeral b :: rat)\<rfloor> = 1 div numeral b"
  using floor_divide_of_int_eq [of 1 "numeral b", where ?'a = rat] by simp

lemma ceiling_rat_one_div: "\<lceil>(1 / numeral b :: rat)\<rceil> = - ((- 1) div numeral b)"
  unfolding ceiling_def
  using floor_divide_of_int_eq [of "- 1" "numeral b", where ?'a = rat] by simp

lemma bitlen_numeral_eval:
  "bitlen 1 = 1"
  "bitlen (numeral (Num.Bit0 k)) = bitlen (numeral k) + 1"
  "bitlen (numeral (Num.Bit1 k)) = bitlen (numeral k) + 1"
  "bitlen (- numeral k) = 0"
  by (subst compute_bitlen; simp)+

lemmas float_eval = fl_def ilog2_def pow2_def round_half_even_def Let_def trunc_def
  float_of_int_def int_truediv_def bitlen_numeral_eval
  floor_rat_numeral_div floor_rat_neg_numeral_div ceiling_rat_numeral_div
  ceiling_rat_neg_numeral_div floor_rat_one_div ceiling_rat_one_div

subsection \<open>Properties of the validator\<close>

lemma trunc_of_int [simp]: "trunc (of_int m) = m"
  by (simp add: trunc_def)

lemma combinations_exact:
  assumes "tot choose select < 2 ^ 53"
  shows "combinations tot select = Inr (int (tot choose select))"
proof (cases "select > tot")
  case True
  then show ?thesis by (simp add: combinations_def)
next
  case False
  then have le: "select \<le> tot" by simp
  let ?c = "int (tot choose select)"
  have nz: "(fact select * fact (tot - select) :: int) \<noteq> 0" by simp
  have q: "rat_of_int (fact tot) / rat_of_int (fact select * fact (tot - select)) = rat_of_int ?c"
    using binomial_fact [OF le, where ?'a = rat] by simp
  have c: "0 \<le> ?c" "?c < 2 ^ 53" using assms by simp_all
  have f: "fl (rat_of_int ?c) = rat_of_int ?c" by (rule fl_of_int [OF c])
  have "rat_of_int ?c < rat_of_int (2 ^ 53)" using c(2) by (simp only: of_int_less_iff)
  then have "rat_of_int ?c < 2 ^ 53" by simp
  also have "(2::rat) ^ 53 < 2 ^ 1024" by simp
  finally have small: "\<not> 2 ^ 1024 \<le> \<bar>rat_of_int ?c\<bar>" by simp
  have "int_truediv (fact tot) (fact select * fact (tot - select)) = Inr (rat_of_int ?c)"
    unfolding int_truediv_def Let_def q f using nz small by simp
  then show ?thesis
    using False by (simp add: combinations_def del: of_int_of_nat_eq)
qed

lemma round_half_even_half: "round_half_even (of_int a + 1 / 2) = (if even a then a else a + 1)"
proof -
  have "\<lfloor>rat_of_int a + 1 / 2\<rfloor> = a" by linarith
  then show ?thesis by (simp add: round_half_even_def)
qed

lemma float_of_int_small:
  assumes "0 \<le> m" "m < 2 ^ 53"
  shows "float_of_int m = Inr (of_int m)"
proof -
  have "rat_of_int m < rat_of_int (2 ^ 53)" using assms(2) by (simp only: of_int_less_iff)
  then have "rat_of_int m < 2 ^ 53" by simp
  also have "(2::rat) ^ 53 < 2 ^ 1024" by simp
  finally have "\<not> 2 ^ 1024 \<le> \<bar>rat_of_int m\<bar>" using assms(1) by simp
  then show ?thesis by (simp add: float_of_int_def fl_of_int [OF assms])
qed

lemma min_songs_value:
  assumes "s < 2 ^ 50"
  shows "round_half_even (fl (fl (3 / 2 * rat_of_int (int s)) + 1 / 2))
           = \<lceil>3 / 2 * rat_of_nat s + 1 / 2\<rceil> - (if 4 dvd s then 1 else 0)"
proof -
  have s: "int s < 2 ^ 50" using assms by simp
  have a: "fl (3 / 2 * rat_of_int (int s)) = rat_of_int (3 * int s) / 2"
    using fl_half_int [of "3 * int s"] s by simp
  have b: "fl (rat_of_int (3 * int s) / 2 + 1 / 2) = rat_of_int (3 * int s + 1) / 2"
    using fl_half_int [of "3 * int s + 1"] s by (simp add: add_divide_distrib)
  have c: "3 / 2 * rat_of_nat s + 1 / 2 = rat_of_int (3 * int s + 1) / 2"
    by (simp add: add_divide_distrib)
  show ?thesis
  proof (cases "even s")
    case True
    then obtain k where k: "s = 2 * k" by (auto elim: evenE)
    have d: "rat_of_int (3 * int s + 1) / 2 = rat_of_int (3 * int k) + 1 / 2"
      by (simp add: k add_divide_distrib)
    have e: "4 dvd s \<longleftrightarrow> even (3 * int k)" by (simp add: k)
    have "\<lceil>rat_of_int (3 * int k) + 1 / 2\<rceil> = 3 * int k + 1" by linarith
    then show ?thesis
      unfolding a b c d round_half_even_half e by simp
  next
    case False
    then obtain k where k: "s = 2 * k + 1" by (auto elim: oddE)
    have d: "rat_of_int (3 * int s + 1) / 2 = rat_of_int (3 * int k + 2)"
      by (simp add: k add_divide_distrib)
    have e: "\<not> 4 dvd s" unfolding k by presburger
    show ?thesis
      unfolding a b c d round_half_even_of_int ceiling_of_int using e by simp
  qed
qed

lemma combinations_error:
  "combinations n k = Inl e \<Longrightarrow> e = ZeroDivisionError \<or> e = OverflowError"
  by (auto simp: combinations_def int_truediv_def Let_def split: if_splits sum.splits)

subsection \<open>Properties of the win-point calculator\<close>

lemma first_pos_Cons:
  "first_pos (r # refs) x = (if x = r then 1 else Suc (first_pos refs x))"
  by (simp add: first_pos_def)

lemma first_pos_le_length: "x \<in> set refs \<Longrightarrow> first_pos refs x \<le> length refs"
  by (induction refs) (auto simp: first_pos_Cons)

lemma first_pos_pos: "1 \<le> first_pos refs x"
  by (simp add: first_pos_def)

lemma in_take_iff_first_pos:
  "x \<in> set refs \<Longrightarrow> x \<in> set (take p refs) \<longleftrightarrow> first_pos refs x \<le> p"
proof (induction refs arbitrary: p)
  case Nil
  then show ?case by simp
next
  case (Cons r refs)
  show ?case
  proof (cases p)
    case 0
    then show ?thesis by (simp add: first_pos_Cons)
  next
    case (Suc q)
    show ?thesis
    proof (cases "x = r")
      case True
      with Suc show ?thesis by (simp add: first_pos_Cons)
    next
      case False
      with Cons.prems have "x \<in> set refs" by simp
      from Cons.IH [OF this, of q] False Suc show ?thesis
        by (simp add: first_pos_Cons)
    qed
  qed
qed

lemma first_pos_append: "x \<in> set xs \<Longrightarrow> first_pos (xs @ ys) x = first_pos xs x"
  by (induction xs) (auto simp: first_pos_Cons)

lemma last_needed_Cons_other:
  assumes "finite ids" "ids \<noteq> {}" "r \<notin> ids"
  shows "last_needed (r # refs) ids = Suc (last_needed refs ids)"
proof -
  have "first_pos (r # refs) ` ids = Suc ` (first_pos refs ` ids)"
    using assms(3) by (auto simp: first_pos_Cons image_iff)
  moreover have "Max (Suc ` (first_pos refs ` ids)) = Suc (Max (first_pos refs ` ids))"
    using assms(1,2) by (intro mono_Max_commute [symmetric]) (auto simp: mono_def)
  ultimately show ?thesis by (simp add: last_needed_def)
qed

lemma last_needed_Cons_hit:
  assumes "finite ids" "r \<in> ids" "ids - {r} \<noteq> {}"
  shows "last_needed (r # refs) ids = Suc (last_needed refs (ids - {r}))"
proof -
  have "first_pos (r # refs) ` ids = insert 1 (Suc ` (first_pos refs ` (ids - {r})))"
    using assms(2) by (auto simp: first_pos_Cons image_iff)
  moreover have "Max (Suc ` (first_pos refs ` (ids - {r}))) = Suc (Max (first_pos refs ` (ids - {r})))"
    using assms(1,3) by (intro mono_Max_commute [symmetric]) (auto simp: mono_def)
  ultimately show ?thesis
    using assms(1,3) by (simp add: last_needed_def)
qed

lemma last_needed_single: "last_needed (r # refs) {r} = 1"
  by (simp add: last_needed_def first_pos_Cons)

text \<open>The scan, started with a non-empty pending set that the play order covers.\<close>

lemma scan_tracks_covered:
  assumes "finite ids" "ids \<noteq> {}" "ids \<subseteq> ref_id ` set tracks"
  shows "scan_tracks tracks cnt lst ids =
           (int (cnt + last_needed (map ref_id tracks) ids) - 1, {})"
  using assms
proof (induction tracks arbitrary: cnt lst ids)
  case Nil
  then show ?case by simp
next
  case (Cons s rest)
  show ?case
  proof (cases "ref_id s \<in> ids")
    case hit: True
    show ?thesis
    proof (cases "ids - {ref_id s} = {}")
      case True
      with hit have "ids = {ref_id s}" by auto
      then show ?thesis by (simp add: last_needed_single)
    next
      case False
      have sub: "ids - {ref_id s} \<subseteq> ref_id ` set rest"
        using Cons.prems(3) by auto
      have fin: "finite (ids - {ref_id s})" using Cons.prems(1) by simp
      from Cons.IH [OF fin False sub, of "cnt + 1" "int cnt"]
      show ?thesis
        using hit False Cons.prems(1)
        by (simp add: last_needed_Cons_hit)
    qed
  next
    case miss: False
    have sub: "ids \<subseteq> ref_id ` set rest"
      using Cons.prems(3) miss by auto
    from Cons.IH [OF Cons.prems(1,2) sub, of "cnt + 1" lst]
    show ?thesis
      using miss Cons.prems(1,2)
      by (simp add: last_needed_Cons_other)
  qed
qed

text \<open>The scan, when some pending identity is absent from the play order.\<close>

lemma scan_tracks_missing:
  assumes "x \<in> ids" "x \<notin> ref_id ` set tracks"
  shows "x \<in> snd (scan_tracks tracks cnt lst ids)"
  using assms
proof (induction tracks arbitrary: cnt lst ids)
  case Nil
  then show ?case by simp
next
  case (Cons s rest)
  from Cons.prems have ne: "x \<noteq> ref_id s" and rest: "x \<notin> ref_id ` set rest"
    by auto
  show ?case
  proof (cases "ref_id s \<in> ids")
    case True
    from Cons.prems(1) ne have in': "x \<in> ids - {ref_id s}" by simp
    then have "ids - {ref_id s} \<noteq> {}" by auto
    with True Cons.IH [OF in' rest, of "cnt + 1" "int cnt"]
    show ?thesis by simp
  next
    case False
    from Cons.prems(1) have "ids \<noteq> {}" by auto
    with False Cons.IH [OF Cons.prems(1) rest, of "cnt + 1" lst]
    show ?thesis by simp
  qed
qed

lemma scan_tracks_empty: "scan_tracks tracks cnt lst {} = (lst, {})"
  by (cases tracks) simp_all

lemma get_when_ticket_wins_covered:
  assumes "card_tracks ticket \<noteq> []"
    and "ref_id ` set (card_tracks ticket) \<subseteq> ref_id ` set tracks"
  shows "get_when_ticket_wins tracks ticket =
           Inr (int (last_needed (map ref_id tracks) (ref_id ` set (card_tracks ticket))))"
proof -
  let ?ids = "ref_id ` set (card_tracks ticket)"
  have "finite ?ids" "?ids \<noteq> {}" using assms(1) by auto
  from scan_tracks_covered [OF this assms(2), of 1 "- 1"]
  show ?thesis by (simp add: get_when_ticket_wins_def)
qed

lemma last_needed_bounds:
  assumes "finite ids" "ids \<noteq> {}" "ids \<subseteq> set refs"
  shows "1 \<le> last_needed refs ids" "last_needed refs ids \<le> length refs"
proof -
  obtain x where x: "x \<in> ids" using assms(2) by auto
  have "first_pos refs x \<le> last_needed refs ids"
    unfolding last_needed_def using assms(1) x by (intro Max_ge) auto
  with first_pos_pos [of refs x] show "1 \<le> last_needed refs ids" by simp
  show "last_needed refs ids \<le> length refs"
    unfolding last_needed_def using assms first_pos_le_length
    by (subst Max_le_iff) auto
qed

lemma covered_iff_last_needed:
  assumes "finite ids" "ids \<noteq> {}" "ids \<subseteq> set refs"
  shows "ids \<subseteq> set (take p refs) \<longleftrightarrow> last_needed refs ids \<le> p"
proof -
  have "ids \<subseteq> set (take p refs) \<longleftrightarrow> (\<forall>x\<in>ids. first_pos refs x \<le> p)"
    using assms(3) in_take_iff_first_pos by blast
  also have "\<dots> \<longleftrightarrow> last_needed refs ids \<le> p"
    unfolding last_needed_def using assms(1,2) by (subst Max_le_iff) auto
  finally show ?thesis .
qed

lemma last_needed_append:
  assumes "ids \<subseteq> set xs"
  shows "last_needed (xs @ ys) ids = last_needed xs ids"
proof -
  have "first_pos (xs @ ys) ` ids = first_pos xs ` ids"
    using assms by (intro image_cong) (auto simp: first_pos_append)
  then show ?thesis by (simp add: last_needed_def)
qed

lemma get_when_ticket_wins_missing:
  assumes "s \<in> set (card_tracks ticket)" "ref_id s \<notin> ref_id ` set tracks"
  shows "\<exists>pending. get_when_ticket_wins tracks ticket = Inl (ValueError (TicketNeverWins pending))"
proof -
  have "ref_id s \<in> set (map ref_id (card_tracks ticket))" using assms(1) by simp
  from scan_tracks_missing [OF this assms(2), of 1 "- 1"]
  show ?thesis
    by (auto simp: get_when_ticket_wins_def split: prod.splits)
qed

lemma get_when_ticket_wins_no_tracks:
  "card_tracks ticket = [] \<Longrightarrow> get_when_ticket_wins tracks ticket = Inr (- 1)"
  by (simp add: get_when_ticket_wins_def scan_tracks_empty)

subsection \<open>Claims about the win-point calculator\<close>

definition example_tracks :: "song list" where
  "example_tracks = map (\<lambda>k. \<lparr>ref_id = 10 * k, song_id = k\<rparr>) [1, 2, 3, 4]"

definition example_ticket :: BingoTicket where
  "example_ticket =
     \<lparr>card_id = 3, card_tracks = [\<lparr>ref_id = 30, song_id = 3\<rparr>, \<lparr>ref_id = 10, song_id = 1\<rparr>],
      ticket_number = None\<rparr>"

text \<open>
  C3. For a ticket with at least one song, all of whose songs (by \<^verbatim>\<open>ref_id\<close>) occur
  in the play order, \<^verbatim>\<open>get_when_ticket_wins\<close> returns a 1-based position \<open>p\<close> within
  the play order such that the first \<open>p\<close> entries contain every song of the ticket and no
  shorter prefix does; \<open>p\<close> is the largest position at which one of the ticket's songs
  first occurs; and the entries after position \<open>p\<close> are never looked at: replacing them
  by anything gives the same result.
\<close>

theorem get_when_ticket_wins_earliest:
  assumes "card_tracks ticket \<noteq> []"
    and "ref_id ` set (card_tracks ticket) \<subseteq> ref_id ` set tracks"
  shows "\<exists>p. get_when_ticket_wins tracks ticket = Inr (int p)
            \<and> 1 \<le> p \<and> p \<le> length tracks
            \<and> ref_id ` set (card_tracks ticket) \<subseteq> ref_id ` set (take p tracks)
            \<and> (\<forall>q<p. \<not> ref_id ` set (card_tracks ticket) \<subseteq> ref_id ` set (take q tracks))
            \<and> p = last_needed (map ref_id tracks) (ref_id ` set (card_tracks ticket))
            \<and> (\<forall>other. get_when_ticket_wins (take p tracks @ other) ticket = Inr (int p))"
proof -
  let ?ids = "ref_id ` set (card_tracks ticket)"
  let ?refs = "map ref_id tracks"
  let ?p = "last_needed ?refs ?ids"
  have fin: "finite ?ids" and ne: "?ids \<noteq> {}" using assms(1) by auto
  have sub: "?ids \<subseteq> set ?refs" using assms(2) by simp
  have cov: "?ids \<subseteq> ref_id ` set (take q tracks) \<longleftrightarrow> ?p \<le> q" for q
    using covered_iff_last_needed [OF fin ne sub, of q] by (simp add: take_map)
  have res: "get_when_ticket_wins tracks ticket = Inr (int ?p)"
    by (rule get_when_ticket_wins_covered [OF assms])
  have bounds: "1 \<le> ?p" "?p \<le> length tracks"
    using last_needed_bounds [OF fin ne sub] by simp_all
  have pre: "?ids \<subseteq> ref_id ` set (take ?p tracks)"
    using cov [of ?p] by simp
  have least: "\<forall>q<?p. \<not> ?ids \<subseteq> ref_id ` set (take q tracks)"
    using cov by auto
  have pre': "?ids \<subseteq> set (map ref_id (take ?p tracks))"
    using pre by simp
  have cut: "get_when_ticket_wins (take ?p tracks @ other) ticket = Inr (int ?p)" for other
  proof -
    have sub': "?ids \<subseteq> ref_id ` set (take ?p tracks @ other)" using pre by auto
    have "last_needed (map ref_id (take ?p tracks @ other)) ?ids
            = last_needed (map ref_id (take ?p tracks) @ map ref_id other) ?ids"
      by simp
    also have "\<dots> = last_needed (map ref_id (take ?p tracks)) ?ids"
      by (rule last_needed_append [OF pre'])
    also have "\<dots> = last_needed (map ref_id (take ?p tracks) @ map ref_id (drop ?p tracks)) ?ids"
      by (rule last_needed_append [OF pre', symmetric])
    also have "map ref_id (take ?p tracks) @ map ref_id (drop ?p tracks) = ?refs"
      by (simp only: map_append [symmetric] append_take_drop_id)
    finally have "last_needed (map ref_id (take ?p tracks @ other)) ?ids = ?p" .
    with get_when_ticket_wins_covered [OF assms(1) sub'] show ?thesis by simp
  qed
  from res bounds pre least cut show ?thesis by blast
qed

theorem get_when_ticket_wins_earliest_witness:
  "card_tracks example_ticket \<noteq> []
   \<and> ref_id ` set (card_tracks example_ticket) \<subseteq> ref_id ` set example_tracks
   \<and> get_when_ticket_wins example_tracks example_ticket = Inr 3"
proof -
  have h1: "card_tracks example_ticket \<noteq> []"
    by (simp add: example_ticket_def)
  have h2: "ref_id ` set (card_tracks example_ticket) \<subseteq> ref_id ` set example_tracks"
    by (simp add: example_ticket_def example_tracks_def)
  have "last_needed (map ref_id example_tracks) (ref_id ` set (card_tracks example_ticket)) = 3"
    by (simp add: example_ticket_def example_tracks_def last_needed_def first_pos_def)
  with get_when_ticket_wins_earliest [OF h1 h2] h1 h2 show ?thesis by auto
qed

text \<open>
  C4. \<^verbatim>\<open>get_when_ticket_wins\<close> raises exactly when some song of the ticket (by
  \<^verbatim>\<open>ref_id\<close>) occurs nowhere in the play order, and what it raises is the
  \<^verbatim>\<open>ValueError\<close> "ticket never wins". The function writes to neither argument (the
  pending set is a fresh one), so it is a function of the two values alone.
\<close>

theorem get_when_ticket_wins_raises_iff:
  "((\<exists>e. get_when_ticket_wins tracks ticket = Inl e)
      \<longleftrightarrow> (\<exists>s\<in>set (card_tracks ticket). ref_id s \<notin> ref_id ` set tracks))
   \<and> ((\<exists>e. get_when_ticket_wins tracks ticket = Inl e)
      \<longleftrightarrow> (\<exists>pending. get_when_ticket_wins tracks ticket
                          = Inl (ValueError (TicketNeverWins pending))))"
proof -
  have a: "\<exists>pending. get_when_ticket_wins tracks ticket = Inl (ValueError (TicketNeverWins pending))"
    if "\<exists>s\<in>set (card_tracks ticket). ref_id s \<notin> ref_id ` set tracks"
    using that get_when_ticket_wins_missing by blast
  have b: "\<exists>s\<in>set (card_tracks ticket). ref_id s \<notin> ref_id ` set tracks"
    if e: "get_when_ticket_wins tracks ticket = Inl e" for e
  proof (rule ccontr)
    assume "\<not> ?thesis"
    then have sub: "ref_id ` set (card_tracks ticket) \<subseteq> ref_id ` set tracks" by auto
    show False
    proof (cases "card_tracks ticket = []")
      case True
      with e show False by (simp add: get_when_ticket_wins_no_tracks)
    next
      case False
      from get_when_ticket_wins_covered [OF False sub] e show False by simp
    qed
  qed
  from a b show ?thesis by blast
qed

theorem get_when_ticket_wins_raises_iff_witness:
  "(\<exists>s\<in>set (card_tracks example_ticket). ref_id s \<notin> ref_id ` set (tl example_tracks))
   \<and> (\<exists>pending. get_when_ticket_wins (tl example_tracks) example_ticket
                     = Inl (ValueError (TicketNeverWins pending)))"
proof -
  have "\<exists>s\<in>set (card_tracks example_ticket). ref_id s \<notin> ref_id ` set (tl example_tracks)"
    by (simp add: example_ticket_def example_tracks_def)
  with get_when_ticket_wins_raises_iff [of "tl example_tracks" example_ticket]
  show ?thesis by blast
qed

text \<open>
  C9. For a ticket with no tracks \<^verbatim>\<open>get_when_ticket_wins\<close> returns \<open>-1\<close> for every
  play order, the empty one included: it neither raises nor returns a 1-based position
  of the play order.
\<close>

theorem get_when_ticket_wins_empty_ticket:
  assumes "card_tracks ticket = []"
  shows "get_when_ticket_wins tracks ticket = Inr (- 1)
         \<and> \<not> (\<exists>p. get_when_ticket_wins tracks ticket = Inr p \<and> 1 \<le> p \<and> p \<le> int (length tracks))"
  using assms by (simp add: get_when_ticket_wins_no_tracks)

theorem get_when_ticket_wins_empty_ticket_witness:
  "card_tracks new_ticket = []
   \<and> get_when_ticket_wins [] new_ticket = Inr (- 1)
   \<and> get_when_ticket_wins example_tracks new_ticket = Inr (- 1)"
proof -
  have h: "card_tracks new_ticket = []" by (simp add: new_ticket_def)
  from get_when_ticket_wins_empty_ticket [OF h, of "[]"]
    get_when_ticket_wins_empty_ticket [OF h, of example_tracks] h
  show ?thesis by simp
qed

subsection \<open>Claims about the validator\<close>

definition five_songs :: "song list" where
  "five_songs = map (\<lambda>k. \<lparr>ref_id = k, song_id = k\<rparr>) [1, 2, 3, 4, 5]"

definition six_songs :: "song list" where
  "six_songs = map (\<lambda>k. \<lparr>ref_id = k, song_id = k\<rparr>) [1, 2, 3, 4, 5, 6]"

definition four_per_ticket :: Options where
  "four_per_ticket =
     \<lparr>mode = BINGO, game_id = ''1'', songs_per_ticket = 4, number_of_cards = 15,
      page_order = False\<rparr>"

definition quiz_options :: Options where
  "quiz_options =
     \<lparr>mode = QUIZ, game_id = [], songs_per_ticket = 15, number_of_cards = 0,
      page_order = False\<rparr>"

text \<open>
  C7. \<^verbatim>\<open>combinations\<close> divides the factorials with Python's true division, so the
  quotient is rounded to a double before \<^verbatim>\<open>int\<close> truncates it. For 95 songs and 15 per
  ticket the result is not the binomial coefficient: the code returns
  110375347398090224, and \<open>95 choose 15\<close> is 110375347398090219.
\<close>

theorem combinations_95_15_inexact:
  "combinations 95 15 = Inr 110375347398090224
   \<and> int (95 choose 15) = 110375347398090219"
proof -
  have "combinations 95 15 = Inr 110375347398090224"
    by (simp add: combinations_def float_eval fact_numeral)
  moreover have "(95 choose 15) = (110375347398090219::nat)"
    by (simp add: binomial_fact' fact_numeral)
  ultimately show ?thesis by simp
qed

text \<open>
  What does hold of \<^verbatim>\<open>combinations\<close>: it is the binomial coefficient whenever that is
  below \<open>2^53\<close> (every such integer is a double), which covers \<open>select > total\<close> and the
  three values the spec lists.
\<close>

theorem combinations_below_2_53:
  assumes "tot choose select < 2 ^ 53"
  shows "combinations tot select = Inr (int (tot choose select))"
  using assms by (rule combinations_exact)

theorem combinations_below_2_53_witness:
  "combinations 17 15 = Inr 136 \<and> combinations 5 10 = Inr 0 \<and> combinations 0 0 = Inr 1"
proof -
  have a: "(17 choose 15) = (136::nat)" by (simp add: binomial_fact' fact_numeral)
  have b: "(5 choose 10) = (0::nat)" by simp
  have c: "(0 choose 0) = (1::nat)" by simp
  from combinations_below_2_53 [of 17 15] combinations_below_2_53 [of 5 10]
    combinations_below_2_53 [of 0 0]
  show ?thesis unfolding a b c by simp
qed

text \<open>
  C8, as amended. In \<^verbatim>\<open>BINGO\<close> mode, with a non-empty game id, a non-empty pool of
  \<open>n\<close> songs and \<open>s\<close> songs per ticket (\<open>s < 2^50\<close>, so that \<open>1.5 * s + 0.5\<close> is computed
  exactly), \<^verbatim>\<open>check_options\<close> raises the too-few-songs error exactly when \<open>n\<close> is below
  \<^verbatim>\<open>round(1.5 * s + 0.5)\<close>. Python rounds a half to the even neighbour, so this
  minimum is \<open>ceil (1.5 * s + 0.5)\<close> when \<open>s\<close> is not a multiple of 4, and one less
  when it is.
\<close>

theorem check_options_min_songs:
  assumes "mode options = BINGO" "game_id options \<noteq> []" "songs \<noteq> []"
    and "songs_per_ticket options < 2 ^ 50"
  shows "(\<exists>m. check_options MAX_SONGS quiz_positions options songs = Inl (ValueError (TooFewSongs m)))
           \<longleftrightarrow> int (length songs)
                 < \<lceil>3 / 2 * rat_of_nat (songs_per_ticket options) + 1 / 2\<rceil>
                   - (if 4 dvd songs_per_ticket options then 1 else 0)"
proof -
  let ?s = "songs_per_ticket options"
  have "int ?s < 2 ^ 53"
    using assms(4) by simp
  then have fo: "float_of_int (int ?s) = Inr (rat_of_int (int ?s))"
    by (intro float_of_int_small) simp_all
  note ms = min_songs_value [OF assms(4)]
  show ?thesis
    using assms(1,2,3) combinations_error [of "length songs" ?s]
    unfolding check_options_def Let_def fo sum.case ms
    by (auto split: sum.splits)
qed


theorem check_options_min_songs_witness:
  "mode four_per_ticket = BINGO \<and> game_id four_per_ticket \<noteq> [] \<and> five_songs \<noteq> []
   \<and> songs_per_ticket four_per_ticket < 2 ^ 50
   \<and> (\<exists>m. check_options 100 20 four_per_ticket five_songs = Inl (ValueError (TooFewSongs m)))"
proof -
  have h: "mode four_per_ticket = BINGO" "game_id four_per_ticket \<noteq> []" "five_songs \<noteq> []"
    "songs_per_ticket four_per_ticket < 2 ^ 50"
    by (simp_all add: four_per_ticket_def five_songs_def)
  have "int (length five_songs)
          < \<lceil>3 / 2 * rat_of_nat (songs_per_ticket four_per_ticket) + 1 / 2\<rceil>
            - (if 4 dvd songs_per_ticket four_per_ticket then 1 else 0)"
    by (simp add: four_per_ticket_def five_songs_def ceiling_rat_numeral_div)
  with check_options_min_songs [OF h, of 100 20] h show ?thesis by simp
qed

text \<open>
  The claim as stated fails for 4 songs per ticket: \<open>ceil (1.5 * 4 + 0.5) = 7\<close>, yet a
  pool of 6 songs passes the minimum-song check (and every other check).
\<close>

theorem check_options_min_songs_counterexample:
  "check_options 100 20 four_per_ticket six_songs = Inr ()
   \<and> int (length six_songs) < \<lceil>3 / 2 * rat_of_nat (songs_per_ticket four_per_ticket) + 1 / 2\<rceil>"
  by (simp add: check_options_def six_songs_def four_per_ticket_def float_eval
      combinations_def fact_numeral MIN_CARDS_def)

text \<open>
  C10. In \<^verbatim>\<open>QUIZ\<close> mode \<^verbatim>\<open>check_options\<close> raises exactly when the song list is empty
  or longer than the quiz countdown capacity, whatever the game id, the songs per ticket
  and the number of cards are; and in every mode other than \<^verbatim>\<open>BINGO\<close> the result is
  never one of the errors of the game-id, minimum-song, maximum-song, minimum-ticket and
  combinatorial-maximum checks.
\<close>

theorem check_options_quiz:
  "(mode options = QUIZ \<longrightarrow>
      check_options MAX_SONGS quiz_positions options songs =
        (if songs = [] then Inl (ValueError SongListEmpty)
         else if quiz_positions < length songs then Inl (ValueError (QuizTooManySongs quiz_positions))
         else Inr ()))
   \<and> (mode options \<noteq> BINGO \<longrightarrow>
        check_options MAX_SONGS quiz_positions options songs \<noteq> Inl (ValueError GameIdEmpty)
      \<and> check_options MAX_SONGS quiz_positions options songs \<noteq> Inl (ValueError TooFewTickets)
      \<and> (\<forall>m. check_options MAX_SONGS quiz_positions options songs \<noteq> Inl (ValueError (TooFewSongs m)))
      \<and> (\<forall>m. check_options MAX_SONGS quiz_positions options songs \<noteq> Inl (ValueError (TooManySongs m)))
      \<and> (\<forall>m. check_options MAX_SONGS quiz_positions options songs \<noteq> Inl (ValueError (TooManyCards m))))"
  by (simp add: check_options_def Let_def)


theorem check_options_quiz_witness:
  "mode quiz_options = QUIZ \<and> mode quiz_options \<noteq> BINGO
   \<and> check_options 100 6 quiz_options six_songs = Inr ()
   \<and> check_options 100 5 quiz_options six_songs = Inl (ValueError (QuizTooManySongs 5))
   \<and> check_options 100 5 quiz_options [] = Inl (ValueError SongListEmpty)"
proof -
  have h: "mode quiz_options = QUIZ" by (simp add: quiz_options_def)
  have n: "six_songs \<noteq> []" "length six_songs = 6" by (simp_all add: six_songs_def)
  from check_options_quiz [of quiz_options 100 6 six_songs]
    check_options_quiz [of quiz_options 100 5 six_songs]
    check_options_quiz [of quiz_options 100 5 "[]"] h n
  show ?thesis by simp
qed

subsection \<open>Properties of the generator\<close>

text \<open>
  A batch of tickets is fresh from \<open>g\<close> to \<open>g'\<close> when its keys are pairwise distinct,
  none of them was used in \<open>g\<close>, and \<open>g'\<close> has registered exactly these keys in addition.
\<close>

definition fresh_batch :: "GameGenerator \<Rightarrow> GameGenerator \<Rightarrow> BingoTicket list \<Rightarrow> bool" where
  "fresh_batch g g' new \<longleftrightarrow>
     distinct (map card_id new)
     \<and> card_id ` set new \<inter> used_card_ids g = {}
     \<and> used_card_ids g' = used_card_ids g \<union> card_id ` set new
     \<and> abort g' = abort g"

lemma fresh_batch_Nil [simp]: "fresh_batch g g []"
  by (simp add: fresh_batch_def)

lemma fresh_batch_append:
  "fresh_batch g g1 a \<Longrightarrow> fresh_batch g1 g2 b \<Longrightarrow> fresh_batch g g2 (a @ b)"
  by (auto simp: fresh_batch_def)

lemma fresh_batch_abort: "fresh_batch g g' new \<Longrightarrow> abort g' = abort g"
  by (simp add: fresh_batch_def)

lemma and_then_eq_Done:
  "and_then m f = Done y \<longleftrightarrow> (\<exists>x. m = Done x \<and> f x = Done y)"
  by (cases m) (simp_all add: and_then_def)

lemma of_sum_eq_Done: "of_sum r = Done x \<longleftrightarrow> r = Inr x"
  by (cases r) (simp_all add: of_sum_def)

lemma generate_at_point_Done:
  assumes "generate_at_point opts g tracks amount from_end rs = Done (cards, g', rs')"
    and "\<not> abort g"
  shows "int (length cards) = max 0 amount"
    and "\<forall>c\<in>set cards. get_when_ticket_wins tracks c = Inr (int (length tracks) - from_end)
                    \<and> ticket_number c = None"
    and "fresh_batch g g' cards"
  using generate_at_point_loop_Done [OF assms(1) [unfolded generate_at_point_def]] assms(2)
  by (auto simp: fresh_batch_def)

lemma get_when_ticket_wins_not_zero: "get_when_ticket_wins tracks c \<noteq> Inr 0"
proof (cases "card_tracks c = []")
  case True
  then show ?thesis by (simp add: get_when_ticket_wins_no_tracks)
next
  case ne: False
  show ?thesis
  proof (cases "ref_id ` set (card_tracks c) \<subseteq> ref_id ` set tracks")
    case True
    have "1 \<le> last_needed (map ref_id tracks) (ref_id ` set (card_tracks c))"
      using ne True by (intro last_needed_bounds) auto
    then show ?thesis using get_when_ticket_wins_covered [OF ne True] by simp
  next
    case False
    then obtain s where "s \<in> set (card_tracks c)" "ref_id s \<notin> ref_id ` set tracks" by auto
    from get_when_ticket_wins_missing [OF this] show ?thesis by auto
  qed
qed

lemma generate_at_point_impossible:
  assumes "\<not> abort g" and "1 \<le> amount"
  shows "generate_at_point opts g tracks amount (int (length tracks)) rs \<noteq> Done r"
proof
  assume d: "generate_at_point opts g tracks amount (int (length tracks)) rs = Done r"
  obtain cards g' rs' where r: "r = (cards, g', rs')" by (cases r)
  from generate_at_point_Done(1,2) [OF d [unfolded r] assms(1)] assms(2)
  have "cards \<noteq> []" "\<forall>c\<in>set cards. get_when_ticket_wins tracks c = Inr 0" by auto
  then obtain c where "get_when_ticket_wins tracks c = Inr 0" by (cases cards) auto
  with get_when_ticket_wins_not_zero show False by blast
qed

text \<open>The ticket that the composer builds when it draws the indices \<open>idxs\<close>, in this order.\<close>

definition drawn_ticket :: "song list \<Rightarrow> nat list \<Rightarrow> BingoTicket" where
  "drawn_ticket songs idxs =
     \<lparr>card_id = foldl (\<lambda>k i. k * song_id (songs ! i)) 1 idxs,
      card_tracks = map (\<lambda>i. songs ! i) idxs,
      ticket_number = None\<rparr>"

lemma draw_index_hit:
  "i < n \<Longrightarrow> i \<notin> picked \<Longrightarrow> draw_index n picked (i # rs) = Done (i, rs)"
  by (simp add: draw_index.simps [of n picked "i # rs"] randbelow_def)

lemma select_loop_direct:
  assumes "\<not> abort g"
    and "distinct (pre @ post)" and "\<forall>i\<in>set post. i < length songs" and "post \<noteq> []"
    and "card_tracks bcard = map (\<lambda>i. songs ! i) pre"
    and "card_id bcard = foldl (\<lambda>k i. k * song_id (songs ! i)) 1 pre"
    and "ticket_number bcard = None"
    and "card_id (drawn_ticket songs (pre @ post)) \<notin> used_card_ids g"
  shows "select_loop songs (length (pre @ post)) g (set pre) bcard (post @ rest)
           = Done (drawn_ticket songs (pre @ post),
                   g\<lparr>used_card_ids := insert (card_id (drawn_ticket songs (pre @ post)))
                                         (used_card_ids g)\<rparr>, rest)"
  using assms(2-)
proof (induction post arbitrary: pre bcard)
  case Nil
  then show ?case by simp
next
  case (Cons i post)
  let ?bcard' = "bcard\<lparr>card_tracks := card_tracks bcard @ [songs ! i],
                        card_id := card_id bcard * song_id (songs ! i)\<rparr>"
  have i: "i < length songs" "i \<notin> set pre" using Cons.prems(1,2) by auto
  have d: "draw_index (length songs) (set pre) ((i # post) @ rest) = Done (i, post @ rest)"
    using draw_index_hit [OF i] by simp
  note unfold = select_loop.simps [of songs "length (pre @ i # post)" g "set pre" bcard
      "(i # post) @ rest"]
  show ?case
  proof (cases "post = []")
    case True
    have eq: "?bcard' = drawn_ticket songs (pre @ [i])"
      using Cons.prems(4,5,6) by (simp add: drawn_ticket_def)
    have len: "length (card_tracks ?bcard') = length (pre @ i # post)"
      using True Cons.prems(4) by simp
    have nu: "card_id ?bcard' \<notin> used_card_ids g"
      using Cons.prems(7) True eq by simp
    show ?thesis
      unfolding unfold d using assms(1) len nu True eq Cons.prems(4)
      by (simp add: Let_def del: One_nat_def)
  next
    case False
    have len: "length (card_tracks ?bcard') \<noteq> length (pre @ i # post)"
      using False Cons.prems(4) by simp
    have step: "select_loop songs (length (pre @ i # post)) g (set pre) bcard ((i # post) @ rest)
                  = select_loop songs (length (pre @ i # post)) g (insert i (set pre)) ?bcard'
                      (post @ rest)"
      unfolding unfold d using assms(1) len by (simp add: Let_def)
    have "select_loop songs (length ((pre @ [i]) @ post)) g (set (pre @ [i])) ?bcard'
            (post @ rest)
          = Done (drawn_ticket songs ((pre @ [i]) @ post),
                   g\<lparr>used_card_ids := insert (card_id (drawn_ticket songs ((pre @ [i]) @ post)))
                                         (used_card_ids g)\<rparr>, rest)"
      using Cons.prems False by (intro Cons.IH) simp_all
    with step show ?thesis by simp
  qed
qed

lemma select_songs_for_ticket_direct:
  assumes "\<not> abort g"
    and "distinct idxs" and "\<forall>i\<in>set idxs. i < length songs" and "idxs \<noteq> []"
    and "card_id (drawn_ticket songs idxs) \<notin> used_card_ids g"
  shows "select_songs_for_ticket g songs new_ticket (length idxs) (idxs @ rest)
           = Done (drawn_ticket songs idxs,
                   g\<lparr>used_card_ids := insert (card_id (drawn_ticket songs idxs))
                                         (used_card_ids g)\<rparr>, rest)"
  using select_loop_direct [of g "[]" idxs songs "new_ticket\<lparr>card_tracks := [], card_id := 1\<rparr>" rest]
    assms
  by (simp add: select_songs_for_ticket_def new_ticket_def)


lemma generate_at_point_loop_direct:
  assumes "\<not> abort g"
    and "\<forall>p\<in>set picks. length p = songs_per_ticket opts \<and> p \<noteq> [] \<and> distinct p
            \<and> (\<forall>i\<in>set p. i < length tracks)
            \<and> get_when_ticket_wins tracks (drawn_ticket tracks p)
                = Inr (int (length tracks) - from_end)"
    and "distinct (map (\<lambda>p. card_id (drawn_ticket tracks p)) picks)"
    and "(\<lambda>p. card_id (drawn_ticket tracks p)) ` set picks \<inter> used_card_ids g = {}"
  shows "generate_at_point_loop opts tracks (cnt + int (length picks)) from_end cnt g cards
           (concat picks @ rest)
         = Done (cards @ map (drawn_ticket tracks) picks,
                 g\<lparr>used_card_ids :=
                     used_card_ids g \<union> (\<lambda>p. card_id (drawn_ticket tracks p)) ` set picks\<rparr>,
                 rest)"
  using assms
proof (induction picks arbitrary: cnt g cards)
  case Nil
  then show ?case
    by (simp add: generate_at_point_loop.simps [of opts tracks cnt from_end cnt g cards rest])
next
  case (Cons p picks)
  let ?k = "card_id (drawn_ticket tracks p)"
  let ?g1 = "g\<lparr>used_card_ids := insert ?k (used_card_ids g)\<rparr>"
  have p: "length p = songs_per_ticket opts" "p \<noteq> []" "distinct p" "\<forall>i\<in>set p. i < length tracks"
    "get_when_ticket_wins tracks (drawn_ticket tracks p) = Inr (int (length tracks) - from_end)"
    using Cons.prems(2) by simp_all
  have k: "?k \<notin> used_card_ids g" using Cons.prems(4) by auto
  have sel: "select_songs_for_ticket g tracks new_ticket (songs_per_ticket opts)
               (concat (p # picks) @ rest) = Done (drawn_ticket tracks p, ?g1, concat picks @ rest)"
    using select_songs_for_ticket_direct [OF Cons.prems(1) p(3,4,2) k, of "concat picks @ rest"]
    by (simp add: p(1))
  have na1: "\<not> abort ?g1" using Cons.prems(1) by simp
  have step: "generate_at_point_loop opts tracks (cnt + int (length (p # picks))) from_end cnt g
                cards (concat (p # picks) @ rest)
              = generate_at_point_loop opts tracks (cnt + int (length (p # picks))) from_end
                  (cnt + 1) ?g1 (cards @ [drawn_ticket tracks p]) (concat picks @ rest)"
    unfolding generate_at_point_loop.simps [of opts tracks "cnt + int (length (p # picks))"
        from_end cnt g cards "concat (p # picks) @ rest"] sel
    using na1 p(5) by simp
  have d': "distinct (map (\<lambda>p. card_id (drawn_ticket tracks p)) picks)"
    using Cons.prems(3) by simp
  have fr': "(\<lambda>p. card_id (drawn_ticket tracks p)) ` set picks \<inter> used_card_ids ?g1 = {}"
    using Cons.prems(3,4) by auto
  have q': "\<forall>p\<in>set picks. length p = songs_per_ticket opts \<and> p \<noteq> [] \<and> distinct p
            \<and> (\<forall>i\<in>set p. i < length tracks)
            \<and> get_when_ticket_wins tracks (drawn_ticket tracks p)
                = Inr (int (length tracks) - from_end)"
    using Cons.prems(2) by simp
  have "generate_at_point_loop opts tracks ((cnt + 1) + int (length picks)) from_end (cnt + 1) ?g1
          (cards @ [drawn_ticket tracks p]) (concat picks @ rest)
        = Done ((cards @ [drawn_ticket tracks p]) @ map (drawn_ticket tracks) picks,
                ?g1\<lparr>used_card_ids :=
                     used_card_ids ?g1 \<union> (\<lambda>p. card_id (drawn_ticket tracks p)) ` set picks\<rparr>,
                rest)"
    by (rule Cons.IH [OF na1 q' d' fr'])
  moreover have "(cnt + 1) + int (length picks) = cnt + int (length (p # picks))" by simp
  ultimately show ?case unfolding step by simp
qed

subsection \<open>Claims about the targeted generator\<close>

definition three_tracks :: "song list" where
  "three_tracks = [\<lparr>ref_id = 10, song_id = 2\<rparr>, \<lparr>ref_id = 20, song_id = 3\<rparr>, \<lparr>ref_id = 30, song_id = 5\<rparr>]"

definition two_per_ticket :: Options where
  "two_per_ticket =
     \<lparr>mode = BINGO, game_id = ''1'', songs_per_ticket = 2, number_of_cards = 15,
      page_order = False\<rparr>"

definition fresh_generator :: GameGenerator where
  "fresh_generator = \<lparr>used_card_ids = {}, abort = False\<rparr>"

lemmas run_eval = generate_at_point_def generate_at_point_loop.simps select_songs_for_ticket_def
  select_loop.simps draw_index.simps randbelow_def randrange_def and_then_def of_sum_def
  get_when_ticket_wins_def new_ticket_def Let_def insert_Diff_if

text \<open>
  C5, as amended. Without abort: (1) whenever \<^verbatim>\<open>generate_at_point\<close> returns, the list holds
  exactly \<open>amount\<close> tickets, each winning at position \<open>len(tracks) - from_end\<close>, and the
  used-key set is the one on entry together with the keys of the returned tickets, which
  are new and pairwise distinct (the key of every rejected ticket has been removed again);
  (2) the call does return when the draws pick, one ticket after the other, \<open>amount\<close>
  tickets that win at that position and whose keys are fresh and pairwise distinct: it
  returns exactly these tickets and consumes exactly these draws.
\<close>

theorem generate_at_point_accepts:
  "(generate_at_point opts g tracks amount from_end rs = Done (cards, g', rs')
      \<and> \<not> abort g \<and> 0 \<le> amount \<longrightarrow>
        int (length cards) = amount
      \<and> (\<forall>c\<in>set cards. get_when_ticket_wins tracks c = Inr (int (length tracks) - from_end))
      \<and> used_card_ids g' = used_card_ids g \<union> card_id ` set cards
      \<and> card_id ` set cards \<inter> used_card_ids g = {}
      \<and> distinct (map card_id cards))
   \<and> (\<not> abort g
      \<and> (\<forall>p\<in>set picks. length p = songs_per_ticket opts \<and> p \<noteq> [] \<and> distinct p
            \<and> (\<forall>i\<in>set p. i < length tracks)
            \<and> get_when_ticket_wins tracks (drawn_ticket tracks p)
                = Inr (int (length tracks) - from_end))
      \<and> distinct (map (\<lambda>p. card_id (drawn_ticket tracks p)) picks)
      \<and> (\<lambda>p. card_id (drawn_ticket tracks p)) ` set picks \<inter> used_card_ids g = {} \<longrightarrow>
        generate_at_point opts g tracks (int (length picks)) from_end (concat picks @ rest)
          = Done (map (drawn_ticket tracks) picks,
                  g\<lparr>used_card_ids :=
                      used_card_ids g \<union> (\<lambda>p. card_id (drawn_ticket tracks p)) ` set picks\<rparr>,
                  rest))"
proof (intro conjI impI)
  assume a: "generate_at_point opts g tracks amount from_end rs = Done (cards, g', rs')
      \<and> \<not> abort g \<and> 0 \<le> amount"
  then have d: "generate_at_point opts g tracks amount from_end rs = Done (cards, g', rs')"
    and na: "\<not> abort g" and am: "0 \<le> amount" by simp_all
  note r = generate_at_point_Done [OF d na]
  show "int (length cards) = amount" using r(1) am by simp
  show "\<forall>c\<in>set cards. get_when_ticket_wins tracks c = Inr (int (length tracks) - from_end)"
    using r(2) by simp
  show "used_card_ids g' = used_card_ids g \<union> card_id ` set cards"
    "card_id ` set cards \<inter> used_card_ids g = {}" "distinct (map card_id cards)"
    using r(3) by (simp_all add: fresh_batch_def)
next
  assume b: "\<not> abort g
      \<and> (\<forall>p\<in>set picks. length p = songs_per_ticket opts \<and> p \<noteq> [] \<and> distinct p
            \<and> (\<forall>i\<in>set p. i < length tracks)
            \<and> get_when_ticket_wins tracks (drawn_ticket tracks p)
                = Inr (int (length tracks) - from_end))
      \<and> distinct (map (\<lambda>p. card_id (drawn_ticket tracks p)) picks)
      \<and> (\<lambda>p. card_id (drawn_ticket tracks p)) ` set picks \<inter> used_card_ids g = {}"
  from generate_at_point_loop_direct [of g picks opts tracks from_end 0 "[]" rest] b
  show "generate_at_point opts g tracks (int (length picks)) from_end (concat picks @ rest)
          = Done (map (drawn_ticket tracks) picks,
                  g\<lparr>used_card_ids :=
                      used_card_ids g \<union> (\<lambda>p. card_id (drawn_ticket tracks p)) ` set picks\<rparr>,
                  rest)"
    by (simp add: generate_at_point_def)
qed

theorem generate_at_point_accepts_witness:
  "\<not> abort fresh_generator \<and> (0::int) \<le> 1
   \<and> generate_at_point two_per_ticket fresh_generator three_tracks 1 0 [0, 1, 2, 0]
       = Done ([\<lparr>card_id = 10,
                  card_tracks = [\<lparr>ref_id = 30, song_id = 5\<rparr>, \<lparr>ref_id = 10, song_id = 2\<rparr>],
                  ticket_number = None\<rparr>], \<lparr>used_card_ids = {10}, abort = False\<rparr>, [])
   \<and> get_when_ticket_wins three_tracks
         \<lparr>card_id = 10,
          card_tracks = [\<lparr>ref_id = 30, song_id = 5\<rparr>, \<lparr>ref_id = 10, song_id = 2\<rparr>],
          ticket_number = None\<rparr> = Inr 3
   \<and> generate_at_point two_per_ticket fresh_generator three_tracks 1 0 [2, 0]
       = Done ([drawn_ticket three_tracks [2, 0]], \<lparr>used_card_ids = {10}, abort = False\<rparr>, [])"
proof -
  let ?t = "\<lparr>card_id = 10,
             card_tracks = [\<lparr>ref_id = 30, song_id = 5\<rparr>, \<lparr>ref_id = 10, song_id = 2\<rparr>],
             ticket_number = None\<rparr>"
  let ?g1 = "\<lparr>used_card_ids = {10}, abort = False\<rparr>"
  have run: "generate_at_point two_per_ticket fresh_generator three_tracks 1 0 [0, 1, 2, 0]
               = Done ([?t], ?g1, [])"
    by (simp add: run_eval three_tracks_def two_per_ticket_def fresh_generator_def)
  have na: "\<not> abort fresh_generator" by (simp add: fresh_generator_def)
  have dt: "drawn_ticket three_tracks [2, 0] = ?t"
    by (simp add: drawn_ticket_def three_tracks_def)
  have win: "get_when_ticket_wins three_tracks ?t = Inr 3"
    by (simp add: get_when_ticket_wins_def three_tracks_def insert_Diff_if)
  have picks: "\<forall>p\<in>set [[2, 0]]. length p = songs_per_ticket two_per_ticket \<and> p \<noteq> [] \<and> distinct p
            \<and> (\<forall>i\<in>set p. i < length three_tracks)
            \<and> get_when_ticket_wins three_tracks (drawn_ticket three_tracks p)
                = Inr (int (length three_tracks) - 0)"
    using win by (simp add: dt) (simp add: two_per_ticket_def three_tracks_def)
  have fresh: "distinct (map (\<lambda>p. card_id (drawn_ticket three_tracks p)) [[2, 0]])"
    "(\<lambda>p. card_id (drawn_ticket three_tracks p)) ` set [[2, 0]]
       \<inter> used_card_ids fresh_generator = {}"
    by (simp_all add: fresh_generator_def)
  have upd: "fresh_generator\<lparr>used_card_ids :=
               used_card_ids fresh_generator
               \<union> (\<lambda>p. card_id (drawn_ticket three_tracks p)) ` set [[2, 0]]\<rparr> = ?g1"
    by (simp add: fresh_generator_def dt)
  from generate_at_point_accepts [of two_per_ticket fresh_generator three_tracks 1 0
      "[0, 1, 2, 0]" "[?t]" ?g1 "[]" "[[2, 0]]" "[]"] run na picks fresh
  have "generate_at_point two_per_ticket fresh_generator three_tracks 1 0 [2, 0]
          = Done ([drawn_ticket three_tracks [2, 0]], ?g1, [])
        \<and> (\<forall>c\<in>set [?t]. get_when_ticket_wins three_tracks c = Inr (int (length three_tracks) - 0))"
    unfolding upd by simp
  with run na show ?thesis by (simp add: three_tracks_def)
qed

text \<open>
  The claim as stated promises a list of \<open>amount\<close> tickets from every call that is not
  aborted. A call whose target position no ticket can win never returns: with three
  tracks and \<open>from_end = 3\<close> the target is position 0, and no sequence of draws leads to a
  return.
\<close>

theorem generate_at_point_accepts_counterexample:
  "\<not> abort fresh_generator
   \<and> \<not> (\<exists>rs r. generate_at_point two_per_ticket fresh_generator three_tracks 1 3 rs = Done r)"
proof -
  have na: "\<not> abort fresh_generator" by (simp add: fresh_generator_def)
  have "generate_at_point two_per_ticket fresh_generator three_tracks 1
          (int (length three_tracks)) rs \<noteq> Done r" for rs r
    by (rule generate_at_point_impossible [OF na]) simp
  then show ?thesis using na by (simp add: three_tracks_def)
qed

subsection \<open>Properties of the page sequencer\<close>

text \<open>
  The spec's round-robin interleaving of three bands: one element from band 1, then band 2,
  then band 3, repeating, a band that has run out being passed over.
\<close>

fun round_robin3 :: "'a list \<Rightarrow> 'a list \<Rightarrow> 'a list \<Rightarrow> 'a list" where
  "round_robin3 [] [] [] = []"
| "round_robin3 a b c =
     take 1 a @ take 1 b @ take 1 c @ round_robin3 (drop 1 a) (drop 1 b) (drop 1 c)"

lemma mset_take1_drop1: "mset (take 1 xs) + mset (drop 1 xs) = mset xs"
  by (metis append_take_drop_id mset_append)

lemma mset_round_robin3: "mset (round_robin3 a b c) = mset a + mset b + mset c"
proof (induction a b c rule: round_robin3.induct, goal_cases)
  case 1
  show ?case by simp
next
  case (2 v va b c)
  then show ?case
    using mset_take1_drop1 [of b] mset_take1_drop1 [of c] by (simp add: ac_simps)
next
  case (3 a v va c)
  then show ?case
    using mset_take1_drop1 [of a] mset_take1_drop1 [of c] by (simp add: ac_simps)
next
  case (4 a b v va)
  then show ?case
    using mset_take1_drop1 [of a] mset_take1_drop1 [of b] by (simp add: ac_simps)
qed

lemma page_loop_round_robin3:
  "length b \<le> length a \<Longrightarrow> length c \<le> length a
     \<Longrightarrow> page_loop a b c acc = acc @ round_robin3 a b c"
proof (induction a arbitrary: b c acc)
  case Nil
  then show ?case by simp
next
  case (Cons x a)
  show ?case
  proof (cases b)
    case bn: Nil
    show ?thesis
    proof (cases c)
      case Nil
      with bn Cons.IH [of "[]" "[]" "acc @ [x]"] show ?thesis by simp
    next
      case (Cons z zs)
      with bn Cons.prems Cons.IH [of "[]" zs "acc @ [x, z]"] show ?thesis by simp
    qed
  next
    case bc: (Cons y ys)
    show ?thesis
    proof (cases c)
      case Nil
      with bc Cons.prems Cons.IH [of ys "[]" "acc @ [x, y]"] show ?thesis by simp
    next
      case (Cons z zs)
      with bc Cons.prems Cons.IH [of ys zs "acc @ [x, y, z]"] show ?thesis by simp
    qed
  qed
qed

lemma page_loop_sub_mset:
  "mset (page_loop a b c acc) \<subseteq># mset acc + mset a + mset b + mset c"
proof (induction a arbitrary: b c acc)
  case Nil
  then show ?case by simp
next
  case (Cons x a)
  show ?case
  proof (cases b)
    case bn: Nil
    show ?thesis
    proof (cases c)
      case Nil
      with bn Cons.IH [of "[]" "[]" "acc @ [x]"] show ?thesis by (simp add: add_mset_commute)
    next
      case (Cons z zs)
      with bn Cons.IH [of "[]" zs "acc @ [x, z]"] show ?thesis by (simp add: add_mset_commute)
    qed
  next
    case bc: (Cons y ys)
    show ?thesis
    proof (cases c)
      case Nil
      with bc Cons.IH [of ys "[]" "acc @ [x, y]"] show ?thesis by (simp add: add_mset_commute)
    next
      case (Cons z zs)
      with bc Cons.IH [of ys zs "acc @ [x, y, z]"] show ?thesis by (simp add: add_mset_commute)
    qed
  qed
qed

lemma third_exact:
  assumes "0 \<le> N" "N < 2 ^ 52"
  shows "\<exists>q. int_truediv N 3 = Inr q \<and> \<lceil>q\<rceil> = (N + 2) div 3 \<and> \<lfloor>q\<rfloor> = N div 3"
proof -
  define k where "k = N div 3"
  define r where "r = N mod 3"
  have N: "N = 3 * k + r" and r: "0 \<le> r" "r < 3" by (simp_all add: k_def r_def)
  have k: "0 \<le> k" "k < 2 ^ 52" using assms by (simp_all add: k_def)
  let ?x = "rat_of_int N / 3"
  have x: "?x = of_int k + of_int r / 3" by (simp add: N)
  have fl: "\<lceil>fl ?x\<rceil> = (N + 2) div 3 \<and> \<lfloor>fl ?x\<rfloor> = N div 3 \<and> \<bar>fl ?x\<bar> < 2 ^ 1024"
  proof (cases "r = 0")
    case True
    have "fl (rat_of_int k) = of_int k" using k by (intro fl_of_int) simp_all
    moreover have "rat_of_int k < rat_of_int (2 ^ 52)" using k(2) by (simp only: of_int_less_iff)
    then have "\<bar>rat_of_int k\<bar> < 2 ^ 1024" using k(1) by simp
    ultimately show ?thesis using True by (simp add: x N)
  next
    case False
    with r have r12: "r = 1 \<or> r = 2" by auto
    have lo: "pow2 (- 1022) \<le> ?x"
    proof -
      have "pow2 (- 1022) \<le> pow2 (- 2)" by (rule pow2_mono) simp
      also have "\<dots> \<le> 1 / 3" by (simp add: pow2_def)
      also have "\<dots> \<le> ?x" using r12 k(1) by (auto simp: x)
      finally show ?thesis .
    qed
    have "rat_of_int N < rat_of_int (2 ^ 52)" using assms(2) by (simp only: of_int_less_iff)
    then have "?x / 2 ^ 53 < 1 / 6" by simp
    with fl_error [OF lo] have err: "\<bar>fl ?x - ?x\<bar> < 1 / 6" by linarith
    from err have e2: "?x - 1 / 6 < fl ?x" "fl ?x < ?x + 1 / 6" by linarith+
    have "rat_of_int k + 1 / 3 \<le> ?x" "?x \<le> rat_of_int k + 2 / 3"
      using r12 by (auto simp: x)
    with e2 have b: "rat_of_int k < fl ?x" "fl ?x < rat_of_int k + 1" by linarith+
    have fk: "\<lfloor>fl ?x\<rfloor> = k" using b by linarith
    have ck: "\<lceil>fl ?x\<rceil> = k + 1" using b by linarith
    have "rat_of_int k + 1 \<le> rat_of_int (2 ^ 52)"
      using k(2) by (metis of_int_le_iff of_int_1 of_int_add zless_imp_add1_zle)
    then have "\<bar>fl ?x\<bar> < 2 ^ 1024" using b k(1) by simp
    moreover have "(N + 2) div 3 = k + 1" "N div 3 = k" using r12 N by auto
    ultimately show ?thesis using fk ck by simp
  qed
  then show ?thesis by (simp add: int_truediv_def Let_def)
qed

lemma py_slice_nonneg:
  "0 \<le> i \<Longrightarrow> 0 \<le> j \<Longrightarrow> py_slice xs i j = take (nat j - nat i) (drop (nat i) xs)"
  by (auto simp: py_slice_def Let_def min_def nat_diff_distrib')


lemma mset_three_bands:
  "mset (take c xs) + mset (take f (drop c xs)) + mset (drop (c + f) xs) = mset xs"
proof -
  have d: "drop f (drop c xs) = drop (c + f) xs" by (simp add: ac_simps)
  have "mset (take c xs) + mset (drop c xs) = mset xs"
    by (metis append_take_drop_id mset_append)
  moreover have "mset (take f (drop c xs)) + mset (drop (c + f) xs) = mset (drop c xs)"
    unfolding d [symmetric] by (metis append_take_drop_id mset_append)
  ultimately show ?thesis by (simp only: add.assoc)
qed

lemma sort_cards_by_page_exact:
  assumes len: "int (length cards) = number_of_cards opts" and small: "number_of_cards opts < 2 ^ 52"
  shows "sort_cards_by_page opts cards =
           Inr (round_robin3 (take ((length cards + 2) div 3) cards)
                  (take (length cards div 3) (drop ((length cards + 2) div 3) cards))
                  (drop ((length cards + 2) div 3 + length cards div 3) cards))"
proof -
  let ?N = "number_of_cards opts"
  let ?n = "length cards"
  have N0: "0 \<le> ?N" using len by linarith
  from third_exact [OF N0 small] obtain q where
    q: "int_truediv ?N 3 = Inr q" "\<lceil>q\<rceil> = (?N + 2) div 3" "\<lfloor>q\<rfloor> = ?N div 3"
    by blast
  define c where "c = (?n + 2) div 3"
  define f where "f = ?n div 3"
  have c: "\<lceil>q\<rceil> = int c" unfolding q(2) c_def len [symmetric] by (simp add: zdiv_int)
  have f: "\<lfloor>q\<rfloor> = int f" unfolding q(3) f_def len [symmetric] by (simp add: zdiv_int)
  have cf: "c + f \<le> ?n" "f \<le> c" "?n - (c + f) \<le> c" unfolding c_def f_def by arith+
  have s1: "py_slice cards 0 (int c) = take c cards"
    by (simp add: py_slice_nonneg)
  have s2: "py_slice cards (int c) (int c + int f) = take f (drop c cards)"
    using py_slice_nonneg [of "int c" "int c + int f" cards] by (simp add: nat_add_distrib)
  have s3: "py_slice cards (int c + int f) (int ?n) = drop (c + f) cards"
    using py_slice_nonneg [of "int c + int f" "int ?n" cards] by (simp add: nat_add_distrib)
  have l2: "length (take f (drop c cards)) \<le> length (take c cards)"
    using cf by simp
  have l3: "length (drop (c + f) cards) \<le> length (take c cards)"
    using cf by simp
  show ?thesis
    unfolding sort_cards_by_page_def q(1) sum.case Let_def c f s1 s2 s3
    using page_loop_round_robin3 [OF l2 l3, of "[]"]
    by (simp add: c_def f_def)
qed

lemma sort_cards_by_page_sub_mset:
  assumes "0 \<le> number_of_cards opts" and "sort_cards_by_page opts cards = Inr paged"
  shows "mset paged \<subseteq># mset cards"
proof -
  let ?N = "number_of_cards opts"
  from assms(2) obtain q where q: "int_truediv ?N 3 = Inr q"
    and paged: "paged = page_loop (py_slice cards 0 \<lceil>q\<rceil>) (py_slice cards \<lceil>q\<rceil> (\<lceil>q\<rceil> + \<lfloor>q\<rfloor>))
                   (py_slice cards (\<lceil>q\<rceil> + \<lfloor>q\<rfloor>) (int (length cards))) []"
    by (auto simp: sort_cards_by_page_def Let_def split: sum.splits)
  have "q = fl (rat_of_int ?N / 3)"
    using q by (auto simp: int_truediv_def Let_def split: if_splits)
  then have q0: "0 \<le> q" using assms(1) by (simp add: fl_nonneg)
  define c where "c = nat \<lceil>q\<rceil>"
  define f where "f = nat \<lfloor>q\<rfloor>"
  have c: "\<lceil>q\<rceil> = int c" using q0 by (simp add: c_def)
  have f: "\<lfloor>q\<rfloor> = int f" using q0 by (simp add: f_def)
  have s1: "py_slice cards 0 (int c) = take c cards"
    by (simp add: py_slice_nonneg)
  have s2: "py_slice cards (int c) (int c + int f) = take f (drop c cards)"
    using py_slice_nonneg [of "int c" "int c + int f" cards] by (simp add: nat_add_distrib)
  have s3: "py_slice cards (int c + int f) (int (length cards)) = drop (c + f) cards"
    using py_slice_nonneg [of "int c + int f" "int (length cards)" cards]
    by (simp add: nat_add_distrib)
  have "mset paged \<subseteq># mset [] + mset (take c cards) + mset (take f (drop c cards))
                          + mset (drop (c + f) cards)"
    unfolding paged c f s1 s2 s3 by (rule page_loop_sub_mset)
  then show ?thesis by (simp add: mset_three_bands)
qed

subsection \<open>Claims about the page sequencer\<close>

definition nine_cards :: "BingoTicket list" where
  "nine_cards =
     map (\<lambda>k. \<lparr>card_id = k, card_tracks = [], ticket_number = Some k\<rparr>) [1, 2, 3, 4, 5, 6, 7, 8, 9]"

definition nine_options :: Options where
  "nine_options =
     \<lparr>mode = BINGO, game_id = ''1'', songs_per_ticket = 15, number_of_cards = 9,
      page_order = True\<rparr>"

text \<open>
  C6. For a list of \<open>T\<close> tickets, with \<open>T\<close> the configured number of cards (below
  \<open>2^52\<close>, where \<open>T / 3\<close> is rounded harmlessly), \<^verbatim>\<open>sort_cards_by_page\<close> returns the
  round-robin interleaving of the three contiguous bands of sizes \<open>ceil (T / 3)\<close>,
  \<open>floor (T / 3)\<close> and the rest. The result is a permutation of the input: every ticket
  occurs as often as before, number and all. For \<open>T = 9\<close> and tickets numbered 1 to 9 the
  order of the numbers is 1, 4, 7, 2, 5, 8, 3, 6, 9 (the witness).
\<close>

theorem sort_cards_by_page_interleaves:
  assumes "int (length cards) = number_of_cards opts" and "number_of_cards opts < 2 ^ 52"
  shows "\<exists>paged. sort_cards_by_page opts cards = Inr paged
           \<and> paged = round_robin3
                 (take (nat \<lceil>rat_of_nat (length cards) / 3\<rceil>) cards)
                 (take (nat \<lfloor>rat_of_nat (length cards) / 3\<rfloor>)
                    (drop (nat \<lceil>rat_of_nat (length cards) / 3\<rceil>) cards))
                 (drop (nat \<lceil>rat_of_nat (length cards) / 3\<rceil>
                        + nat \<lfloor>rat_of_nat (length cards) / 3\<rfloor>) cards)
           \<and> mset paged = mset cards"
proof -
  let ?n = "length cards"
  have fl: "\<lfloor>rat_of_nat ?n / 3\<rfloor> = int (?n div 3)"
    using floor_divide_of_nat_eq [of ?n 3, where ?'a = rat] by simp
  have a: "?n \<le> 3 * ((?n + 2) div 3)" "3 * ((?n + 2) div 3) < ?n + 3" by arith+
  have "rat_of_nat ?n \<le> rat_of_nat (3 * ((?n + 2) div 3))"
    "rat_of_nat (3 * ((?n + 2) div 3)) < rat_of_nat (?n + 3)"
    using a by (simp_all only: of_nat_le_iff of_nat_less_iff)
  then have ce: "\<lceil>rat_of_nat ?n / 3\<rceil> = int ((?n + 2) div 3)"
    by (intro ceiling_unique) simp_all
  show ?thesis
    unfolding fl ce nat_int sort_cards_by_page_exact [OF assms]
    by (simp add: mset_round_robin3 mset_three_bands)
qed


theorem sort_cards_by_page_interleaves_witness:
  "int (length nine_cards) = number_of_cards nine_options
   \<and> number_of_cards nine_options < 2 ^ 52
   \<and> (\<exists>paged. sort_cards_by_page nine_options nine_cards = Inr paged
         \<and> map ticket_number paged = map Some [1, 4, 7, 2, 5, 8, 3, 6, 9])"
proof -
  have h: "int (length nine_cards) = number_of_cards nine_options"
    "number_of_cards nine_options < 2 ^ 52"
    by (simp_all add: nine_cards_def nine_options_def)
  have c: "nat \<lceil>rat_of_nat (length nine_cards) / 3\<rceil> = 3"
    "nat \<lfloor>rat_of_nat (length nine_cards) / 3\<rfloor> = 3"
    by (simp_all add: nine_cards_def)
  from sort_cards_by_page_interleaves [OF h] obtain paged where
    s: "sort_cards_by_page nine_options nine_cards = Inr paged"
    and r: "paged = round_robin3 (take 3 nine_cards) (take 3 (drop 3 nine_cards))
                       (drop (3 + 3) nine_cards)"
    unfolding c by blast
  have "map ticket_number paged = map Some [1, 4, 7, 2, 5, 8, 3, 6, 9]"
    unfolding r by (simp add: nine_cards_def)
  with s h show ?thesis by blast
qed

end
